theory Spec2Isabelle
  imports Complex_Main
begin

section \<open>JavaScript numbers\<close>

text \<open>
  A JavaScript \<open>number\<close> is NaN, one of the two infinities, or a finite value, here a real
  number. The operators of this section follow the ECMAScript rules for the special values
  and compute finite results exactly: no rounding, no overflow, and a single zero (the sign
  of a zero is not tracked, a zero divisor counts as \<open>+0\<close>). They are the exact-arithmetic
  reading of the code. The next section rounds their results to binary64, which is what the
  code computes.
\<close>

datatype number = NaN | Infinity | NegInfinity | Num real

fun sign_of :: "number \<Rightarrow> real" where
  "sign_of NaN = 0"
| "sign_of Infinity = 1"
| "sign_of NegInfinity = - 1"
| "sign_of (Num a) = sgn a"

definition inf_of_sign :: "real \<Rightarrow> number" where
  "inf_of_sign s = (if s = 0 then NaN else if 0 < s then Infinity else NegInfinity)"

fun js_neg :: "number \<Rightarrow> number" where
  "js_neg NaN = NaN"
| "js_neg Infinity = NegInfinity"
| "js_neg NegInfinity = Infinity"
| "js_neg (Num a) = Num (- a)"

fun js_add :: "number \<Rightarrow> number \<Rightarrow> number" where
  "js_add NaN y = NaN"
| "js_add x NaN = NaN"
| "js_add (Num a) (Num b) = Num (a + b)"
| "js_add (Num a) y = y"
| "js_add x (Num b) = x"
| "js_add x y = (if x = y then x else NaN)"

definition js_sub :: "number \<Rightarrow> number \<Rightarrow> number" where
  "js_sub x y = js_add x (js_neg y)"

fun js_mul :: "number \<Rightarrow> number \<Rightarrow> number" where
  "js_mul NaN y = NaN"
| "js_mul x NaN = NaN"
| "js_mul (Num a) (Num b) = Num (a * b)"
| "js_mul x y = inf_of_sign (sign_of x * sign_of y)"

fun js_div :: "number \<Rightarrow> number \<Rightarrow> number" where
  "js_div NaN y = NaN"
| "js_div x NaN = NaN"
| "js_div (Num a) (Num b) = (if b = 0 then inf_of_sign (sgn a) else Num (a / b))"
| "js_div (Num a) y = Num 0"
| "js_div x (Num b) = (if b = 0 then x else inf_of_sign (sign_of x * sgn b))"
| "js_div x y = NaN"

fun js_lt :: "number \<Rightarrow> number \<Rightarrow> bool" where
  "js_lt NaN y = False"
| "js_lt x NaN = False"
| "js_lt (Num a) (Num b) = (a < b)"
| "js_lt x NegInfinity = False"
| "js_lt Infinity y = False"
| "js_lt x y = True"

definition js_gt :: "number \<Rightarrow> number \<Rightarrow> bool" where
  "js_gt x y = js_lt y x"

fun js_ge :: "number \<Rightarrow> number \<Rightarrow> bool" where
  "js_ge NaN y = False"
| "js_ge x NaN = False"
| "js_ge x y = (\<not> js_lt x y)"

text \<open>Strict equality \<open>===\<close> on numbers: NaN is not equal to itself.\<close>

definition js_eq :: "number \<Rightarrow> number \<Rightarrow> bool" where
  "js_eq x y = (x \<noteq> NaN \<and> x = y)"

definition isNaN :: "number \<Rightarrow> bool" where
  "isNaN x = (x = NaN)"

text \<open>Truthiness of a number, as \<open>!rate\<close> and \<open>rate || 1\<close> read it: 0 and NaN are falsy.\<close>

definition truthy :: "number \<Rightarrow> bool" where
  "truthy x = (x \<noteq> NaN \<and> x \<noteq> Num 0)"

definition js_or :: "number \<Rightarrow> number \<Rightarrow> number" where
  "js_or x y = (if truthy x then x else y)"

text \<open>\<open>Math.round\<close>: the nearest integer, a tie going up.\<close>

fun Math_round :: "number \<Rightarrow> number" where
  "Math_round (Num a) = Num (of_int \<lfloor>a + 1 / 2\<rfloor>)"
| "Math_round x = x"

section \<open>Binary64 arithmetic\<close>

text \<open>
  A finite result is rounded to the nearest binary64 number, a tie going to the even
  significand: \<open>f64_ulp x\<close> is the spacing of the binary64 numbers around \<open>x\<close> (the exponent
  is at least -1022, below which the numbers are subnormal and equally spaced), the
  rounded value is the nearest multiple of it, and a rounded value of magnitude \<open>2^1024\<close> or
  more is an infinity. \<open>f64_add\<close>, \<open>f64_sub\<close>, \<open>f64_mul\<close> and \<open>f64_div\<close> are the operators
  \<open>+\<close>, \<open>-\<close>, \<open>*\<close> and \<open>/\<close> of the code on binary64 operands.
\<close>

definition round_ties_even :: "real \<Rightarrow> int" where
  "round_ties_even y =
     (let f = \<lfloor>y\<rfloor>; d = y - of_int f
      in if d < 1 / 2 then f else if 1 / 2 < d then f + 1 else if even f then f else f + 1)"

definition f64_ulp :: "real \<Rightarrow> real" where
  "f64_ulp x = 2 powi (max \<lfloor>log 2 \<bar>x\<bar>\<rfloor> (- 1022) - 52)"

definition f64_round :: "real \<Rightarrow> number" where
  "f64_round x =
     (if x = 0 then Num 0
      else
        (let u = f64_ulp x;
             v = of_int (round_ties_even (x / u)) * u
         in if 2 ^ 1024 \<le> \<bar>v\<bar> then (if 0 < x then Infinity else NegInfinity) else Num v))"

fun f64 :: "number \<Rightarrow> number" where
  "f64 (Num v) = f64_round v"
| "f64 x = x"

definition f64_add :: "number \<Rightarrow> number \<Rightarrow> number" where
  "f64_add x y = f64 (js_add x y)"

definition f64_sub :: "number \<Rightarrow> number \<Rightarrow> number" where
  "f64_sub x y = f64 (js_sub x y)"

definition f64_mul :: "number \<Rightarrow> number \<Rightarrow> number" where
  "f64_mul x y = f64 (js_mul x y)"

definition f64_div :: "number \<Rightarrow> number \<Rightarrow> number" where
  "f64_div x y = f64 (js_div x y)"

section \<open>Currencies and the static rate table (constants.ts, types.ts)\<close>

datatype Currency = ARS | USD | USDT | COP | MXN | CLP | PEN | UYU | BRL | EUR | GBP

fun USD_EXCHANGE_RATES :: "Currency \<Rightarrow> number" where
  "USD_EXCHANGE_RATES USD = Num 1"
| "USD_EXCHANGE_RATES USDT = Num 1"
| "USD_EXCHANGE_RATES ARS = Num 0.0011"
| "USD_EXCHANGE_RATES COP = Num 0.00025"
| "USD_EXCHANGE_RATES MXN = Num 0.059"
| "USD_EXCHANGE_RATES CLP = Num 0.0011"
| "USD_EXCHANGE_RATES PEN = Num 0.27"
| "USD_EXCHANGE_RATES UYU = Num 0.026"
| "USD_EXCHANGE_RATES BRL = Num 0.20"
| "USD_EXCHANGE_RATES EUR = Num 1.10"
| "USD_EXCHANGE_RATES GBP = Num 1.27"

text \<open>The binary64 numbers that the literals of the table denote.\<close>

definition USD_EXCHANGE_RATES_f64 :: "Currency \<Rightarrow> number" where
  "USD_EXCHANGE_RATES_f64 c = f64 (USD_EXCHANGE_RATES c)"

section \<open>Currency conversion (currency.ts)\<close>

definition convertToUSD :: "number \<Rightarrow> Currency \<Rightarrow> number" where
  "convertToUSD amount fromCurrency =
     (if fromCurrency = USD then amount
      else let rate = USD_EXCHANGE_RATES fromCurrency in
        if \<not> truthy rate then amount else js_mul amount rate)"

definition convertFromUSD :: "number \<Rightarrow> Currency \<Rightarrow> number" where
  "convertFromUSD usdAmount toCurrency =
     (if toCurrency = USD then usdAmount
      else let rate = USD_EXCHANGE_RATES toCurrency in
        if \<not> truthy rate then usdAmount else js_div usdAmount rate)"

definition convertCurrency :: "number \<Rightarrow> Currency \<Rightarrow> Currency \<Rightarrow> number" where
  "convertCurrency amount fromCurrency toCurrency =
     (if fromCurrency = toCurrency then amount
      else let usdAmount = convertToUSD amount fromCurrency in
        convertFromUSD usdAmount toCurrency)"

definition getExchangeRate :: "Currency \<Rightarrow> Currency \<Rightarrow> number" where
  "getExchangeRate from to =
     (if from = to then Num 1
      else let fromToUSD = js_or (USD_EXCHANGE_RATES from) (Num 1);
               usdToTarget = js_div (Num 1) (js_or (USD_EXCHANGE_RATES to) (Num 1))
           in js_mul fromToUSD usdToTarget)"

text \<open>
  The same three functions over binary64: the table holds the rounded literals, and every
  product and quotient is rounded.
\<close>

definition convertToUSD_f64 :: "number \<Rightarrow> Currency \<Rightarrow> number" where
  "convertToUSD_f64 amount fromCurrency =
     (if fromCurrency = USD then amount
      else let rate = USD_EXCHANGE_RATES_f64 fromCurrency in
        if \<not> truthy rate then amount else f64_mul amount rate)"

definition convertFromUSD_f64 :: "number \<Rightarrow> Currency \<Rightarrow> number" where
  "convertFromUSD_f64 usdAmount toCurrency =
     (if toCurrency = USD then usdAmount
      else let rate = USD_EXCHANGE_RATES_f64 toCurrency in
        if \<not> truthy rate then usdAmount else f64_div usdAmount rate)"

definition convertCurrency_f64 :: "number \<Rightarrow> Currency \<Rightarrow> Currency \<Rightarrow> number" where
  "convertCurrency_f64 amount fromCurrency toCurrency =
     (if fromCurrency = toCurrency then amount
      else let usdAmount = convertToUSD_f64 amount fromCurrency in
        convertFromUSD_f64 usdAmount toCurrency)"

section \<open>Simulated quotes and rates (currency.ts, constants.ts)\<close>

text \<open>
  A \<open>Date\<close> holds a time value in milliseconds since the epoch, or is an Invalid Date,
  whose \<open>getTime()\<close> is NaN. The ambient clock (\<open>new Date()\<close>) and the ambient random
  source (\<open>Math.random()\<close>) are arguments of the functions that read them: \<open>now\<close> is the
  clock's time value, and a random draw is a real number.
\<close>

datatype Date = InvalidDate | Instant int

fun getTime :: "Date \<Rightarrow> number" where
  "getTime InvalidDate = NaN"
| "getTime (Instant t) = Num (of_int t)"

record USDTQuote =
  price :: number
  timestamp :: Date
  source :: string

record ExchangeRates =
  base :: string
  rates :: "Currency \<Rightarrow> number"
  timestamp :: Date
  source :: string

definition QUOTE_CACHE_DURATION :: number where
  "QUOTE_CACHE_DURATION = Num (60 * 60 * 1000)"

definition USDT_PRICE_RANGE_min :: number where
  "USDT_PRICE_RANGE_min = Num 1180"

definition USDT_PRICE_RANGE_max :: number where
  "USDT_PRICE_RANGE_max = Num 1220"

definition USDT_PRICE_RANGE_base :: number where
  "USDT_PRICE_RANGE_base = Num 1200"

text \<open>
  \<open>generateUSDTQuote\<close> computes in binary64; its literals 0.5, 40, 100 and the base 1200
  are binary64 numbers. \<open>Math.round\<close> of a binary64 number of magnitude below \<open>2^52\<close> is an
  integer that binary64 holds exactly.
\<close>

definition generateUSDTQuote :: "real \<Rightarrow> int \<Rightarrow> USDTQuote" where
  "generateUSDTQuote random now =
     (let fluctuation = f64_mul (f64_sub (Num random) (Num 0.5)) (Num 40);
          price = f64_div (Math_round (f64_mul (f64_add USDT_PRICE_RANGE_base fluctuation) (Num 100)))
                    (Num 100)
      in \<lparr> price = price, timestamp = Instant now, source = ''simulation'' \<rparr>)"

text \<open>
  \<open>generateExchangeRates\<close> is embedded with the exact operators. \<open>Object.keys(rates)\<close>
  lists the keys in the order of the object literal of \<open>USD_EXCHANGE_RATES\<close>, which the
  spread copy keeps. The callback of \<open>forEach\<close> draws one random number for every key but
  USD; \<open>jitter_rate\<close> is that callback. The state of the loop is the table \<open>rates\<close> and the
  number of draws made so far, the \<open>k\<close>-th draw being \<open>random k\<close>.
\<close>

definition Object_keys_rates :: "Currency list" where
  "Object_keys_rates = [USD, USDT, ARS, COP, MXN, CLP, PEN, UYU, BRL, EUR, GBP]"

fun jitter_rate ::
  "(nat \<Rightarrow> real) \<Rightarrow> Currency \<Rightarrow> (Currency \<Rightarrow> number) \<times> nat \<Rightarrow> (Currency \<Rightarrow> number) \<times> nat" where
  "jitter_rate random currency (table, k) =
     (if currency \<noteq> USD then
        (let baseRate = USD_EXCHANGE_RATES currency;
             fluctuation = js_mul (js_sub (Num (random k)) (Num 0.5)) (Num 0.02)
         in (table(currency := js_mul baseRate (js_add (Num 1) fluctuation)), k + 1))
      else (table, k))"

definition generateExchangeRates :: "(nat \<Rightarrow> real) \<Rightarrow> int \<Rightarrow> ExchangeRates" where
  "generateExchangeRates random now =
     (let rates = fst (fold (jitter_rate random) Object_keys_rates (USD_EXCHANGE_RATES, 0))
      in \<lparr> base = ''USD'', rates = rates, timestamp = Instant now, source = ''simulation'' \<rparr>)"

definition shouldUpdateQuotes :: "Date option \<Rightarrow> int \<Rightarrow> bool" where
  "shouldUpdateQuotes lastUpdate now =
     (case lastUpdate of
        None \<Rightarrow> True
      | Some d \<Rightarrow>
          (let timeDiff = js_sub (getTime (Instant now)) (getTime d)
           in js_ge timeDiff QUOTE_CACHE_DURATION))"

section \<open>The quote cache (currency.ts)\<close>

text \<open>
  Strings are lists of UTF-16 code units, as \<open>length\<close>, \<open>slice\<close> and \<open>lastIndexOf\<close> count
  them; \<open>str\<close> turns an ASCII literal into one.
\<close>

type_synonym jsstring = "nat list"

definition str :: "string \<Rightarrow> jsstring" where
  "str s = map of_char s"

text \<open>
  \<open>localStorage\<close> is a string-keyed store of strings. Its \<open>getItem\<close> and \<open>setItem\<close> can throw
  (access denied, quota exceeded); whether they do is part of the store's state. What
  \<open>JSON.parse\<close>, the object spread and the \<open>Date\<close> constructor make of a cached text is the
  argument \<open>deserialize\<close>, typed as the source types its result (\<open>const quote: USDTQuote\<close>);
  it throws on a text that is not JSON and on the JSON \<open>null\<close>, and the timestamp it builds
  is an Invalid Date when the text holds no usable one. \<open>JSON.stringify\<close> of a quote is the
  argument \<open>serialize\<close>. A \<open>try\<close> block is a function to a sum, \<open>Inl\<close> carrying what was
  thrown, and its \<open>catch\<close> is the case distinction on that sum. The calls of
  \<open>console.error\<close> are left out.
\<close>

datatype exn = SecurityError | QuotaExceededError | SyntaxError | TypeError

record Storage =
  items :: "string \<rightharpoonup> jsstring"
  getItem_throws :: bool
  setItem_throws :: bool

definition getItem :: "Storage \<Rightarrow> string \<Rightarrow> exn + jsstring option" where
  "getItem st key = (if getItem_throws st then Inl SecurityError else Inr (items st key))"

definition setItem :: "Storage \<Rightarrow> string \<Rightarrow> jsstring \<Rightarrow> exn + Storage" where
  "setItem st key v =
     (if setItem_throws st then Inl QuotaExceededError
      else Inr (st\<lparr> items := (items st)(key \<mapsto> v) \<rparr>))"

text \<open>
  \<open>getCachedUSDTQuote_try\<close> is the body of the \<open>try\<close> block of \<open>getCachedUSDTQuote\<close>, and
  \<open>getCachedUSDTQuote\<close> adds its \<open>catch\<close>, which returns null. \<open>!cached\<close> holds of null and
  of the empty string.
\<close>

definition getCachedUSDTQuote_try ::
  "(jsstring \<Rightarrow> exn + USDTQuote) \<Rightarrow> Storage \<Rightarrow> int \<Rightarrow> exn + USDTQuote option" where
  "getCachedUSDTQuote_try deserialize st now =
     (case getItem st ''tufinanza_usdt_quote'' of
        Inl e \<Rightarrow> Inl e
      | Inr cached \<Rightarrow>
          (case cached of
             None \<Rightarrow> Inr None
           | Some text \<Rightarrow>
               if text = [] then Inr None
               else
                 (case deserialize text of
                    Inl e \<Rightarrow> Inl e
                  | Inr quote \<Rightarrow>
                      if shouldUpdateQuotes (Some (USDTQuote.timestamp quote)) now then Inr None
                      else Inr (Some quote))))"

definition getCachedUSDTQuote ::
  "(jsstring \<Rightarrow> exn + USDTQuote) \<Rightarrow> Storage \<Rightarrow> int \<Rightarrow> exn + USDTQuote option" where
  "getCachedUSDTQuote deserialize st now =
     (case getCachedUSDTQuote_try deserialize st now of
        Inl e \<Rightarrow> Inr None
      | Inr r \<Rightarrow> Inr r)"

definition saveUSDTQuoteToCache ::
  "(USDTQuote \<Rightarrow> jsstring) \<Rightarrow> USDTQuote \<Rightarrow> Storage \<Rightarrow> exn + Storage" where
  "saveUSDTQuoteToCache serialize quote st =
     (case setItem st ''tufinanza_usdt_quote'' (serialize quote) of
        Inl e \<Rightarrow> Inr st
      | Inr st' \<Rightarrow> Inr st')"

text \<open>
  \<open>getCurrentUSDTQuote\<close> reads the clock twice: \<open>now\<close> when the cached quote is checked,
  \<open>now'\<close> when a new quote is generated. It returns the quote and the store it leaves.
\<close>

definition getCurrentUSDTQuote ::
  "(jsstring \<Rightarrow> exn + USDTQuote) \<Rightarrow> (USDTQuote \<Rightarrow> jsstring) \<Rightarrow> real \<Rightarrow> int \<Rightarrow> int \<Rightarrow> Storage
    \<Rightarrow> exn + USDTQuote \<times> Storage" where
  "getCurrentUSDTQuote deserialize serialize random now now' st =
     (case getCachedUSDTQuote deserialize st now of
        Inl e \<Rightarrow> Inl e
      | Inr cached \<Rightarrow>
          (case cached of
             Some quote \<Rightarrow> Inr (quote, st)
           | None \<Rightarrow>
               (let newQuote = generateUSDTQuote random now' in
                case saveUSDTQuoteToCache serialize newQuote st of
                  Inl e \<Rightarrow> Inl e
                | Inr st' \<Rightarrow> Inr (newQuote, st'))))"

section \<open>Parsing and validating amounts (currency.ts)\<close>

text \<open>
  \<open>parseFloat\<close> is the ECMAScript builtin: it skips leading white space and reads the
  longest prefix that is a decimal literal (an optional sign, then \<open>Infinity\<close>, or digits
  with an optional fraction and an optional exponent), giving NaN when there is none. Its
  value is taken exactly.
\<close>

definition isWhiteSpace :: "nat \<Rightarrow> bool" where
  "isWhiteSpace c = (c \<in> {9, 10, 11, 12, 13, 32, 160, 5760, 8232, 8233, 8239, 8287, 12288, 65279}
      \<or> (8192 \<le> c \<and> c \<le> 8202))"

definition isDigit :: "nat \<Rightarrow> bool" where
  "isDigit c = (48 \<le> c \<and> c \<le> 57)"

definition digitsValue :: "jsstring \<Rightarrow> nat" where
  "digitsValue ds = foldl (\<lambda>acc d. 10 * acc + (d - 48)) 0 ds"

definition scale10 :: "real \<Rightarrow> int \<Rightarrow> real" where
  "scale10 m e = (if 0 \<le> e then m * 10 ^ nat e else m / 10 ^ nat (- e))"

definition exponentPart :: "jsstring \<Rightarrow> int" where
  "exponentPart s =
     (case s of
        [] \<Rightarrow> 0
      | c # r \<Rightarrow>
          if c = 101 \<or> c = 69 then
            (let neg = (take 1 r = [45]);
                 r' = (if take 1 r = [45] \<or> take 1 r = [43] then drop 1 r else r);
                 ds = takeWhile isDigit r'
             in if ds = [] then 0
                else if neg then - int (digitsValue ds) else int (digitsValue ds))
          else 0)"

definition parseFloat :: "jsstring \<Rightarrow> number" where
  "parseFloat s =
     (let t = dropWhile isWhiteSpace s;
          neg = (take 1 t = [45]);
          u = (if take 1 t = [45] \<or> take 1 t = [43] then drop 1 t else t)
      in if take 8 u = str ''Infinity'' then (if neg then NegInfinity else Infinity)
         else
           (let ip = takeWhile isDigit u;
                r1 = dropWhile isDigit u;
                fp = (if take 1 r1 = [46] then takeWhile isDigit (drop 1 r1) else []);
                r2 = (if take 1 r1 = [46] then dropWhile isDigit (drop 1 r1) else r1)
            in if ip = [] \<and> fp = [] then NaN
               else
                 (let m = real (digitsValue ip) + real (digitsValue fp) / 10 ^ length fp;
                      v = scale10 m (exponentPart r2)
                  in Num (if neg then - v else v))))"

fun lastIndexOf_from :: "jsstring \<Rightarrow> nat \<Rightarrow> int \<Rightarrow> int \<Rightarrow> int" where
  "lastIndexOf_from [] c i found = found"
| "lastIndexOf_from (x # xs) c i found = lastIndexOf_from xs c (i + 1) (if x = c then i else found)"

definition lastIndexOf :: "jsstring \<Rightarrow> nat \<Rightarrow> int" where
  "lastIndexOf s c = lastIndexOf_from s c 0 (- 1)"

definition removeAll_char :: "nat \<Rightarrow> jsstring \<Rightarrow> jsstring" where
  "removeAll_char c s = filter (\<lambda>x. x \<noteq> c) s"

fun replace_first :: "nat \<Rightarrow> nat \<Rightarrow> jsstring \<Rightarrow> jsstring" where
  "replace_first c d [] = []"
| "replace_first c d (x # xs) = (if x = c then d # xs else x # replace_first c d xs)"

definition isSymbolOrSpace :: "nat \<Rightarrow> bool" where
  "isSymbolOrSpace c = (c \<in> {36, 8364, 163, 83, 47, 82} \<or> isWhiteSpace c)"

definition parseNumber :: "jsstring \<Rightarrow> number" where
  "parseNumber input =
     (let cleaned = filter (\<lambda>c. \<not> isSymbolOrSpace c) input;
          lastDotIndex = lastIndexOf cleaned 46;
          lastCommaIndex = lastIndexOf cleaned 44;
          cleaned' =
            (if lastCommaIndex > lastDotIndex then
               replace_first 44 46 (removeAll_char 46 cleaned)
             else if lastDotIndex \<noteq> - 1 then
               (let afterDot = drop (nat (lastDotIndex + 1)) cleaned in
                if length afterDot \<le> 2 then
                  (let beforeDot = removeAll_char 46 (take (nat lastDotIndex) cleaned)
                   in beforeDot @ [46] @ afterDot)
                else removeAll_char 46 cleaned)
             else cleaned);
          num = parseFloat cleaned'
      in if isNaN num then Num 0 else num)"

text \<open>The object \<open>{ isValid, error? }\<close> that \<open>validateAmount\<close> returns.\<close>

record ValidationResult =
  isValid :: bool
  error :: "jsstring option"

definition validateAmount :: "number \<Rightarrow> ValidationResult" where
  "validateAmount amount =
     (if isNaN amount \<or> js_lt amount (Num 0) then
        \<lparr> isValid = False,
          error = Some (str ''El monto debe ser un n'' @ [250] @ str ''mero positivo'') \<rparr>
      else if js_eq amount (Num 0) then
        \<lparr> isValid = False, error = Some (str ''El monto debe ser mayor a cero'') \<rparr>
      else if js_gt amount (Num 999999999) then
        \<lparr> isValid = False, error = Some (str ''El monto es demasiado grande'') \<rparr>
      else \<lparr> isValid = True, error = None \<rparr>)"

section \<open>Facts about the rate table\<close>

lemma rate_cases: "(case USD_EXCHANGE_RATES c of Num r \<Rightarrow> 0 < r | _ \<Rightarrow> False)"
  by (cases c) simp_all

lemma rate_positive: "\<exists>r. USD_EXCHANGE_RATES c = Num r \<and> 0 < r"
  using rate_cases [of c] by (cases "USD_EXCHANGE_RATES c") simp_all

lemma rate_truthy: "truthy (USD_EXCHANGE_RATES c)"
  using rate_positive [of c] by (auto simp: truthy_def)

lemma js_mul_div_cancel:
  "0 < a \<Longrightarrow> 0 < b \<Longrightarrow>
     js_div (js_mul (js_div (js_mul x (Num a)) (Num b)) (Num b)) (Num a) = x"
  by (cases x) (simp_all add: inf_of_sign_def)

section \<open>Rounding to binary64\<close>

text \<open>
  The facts used below: rounding leaves a binary64 number as it is, never crosses a
  dyadic number that binary64 holds, moves a number of the normal range by at most the
  fraction \<open>2^-53\<close> of it, overflows from \<open>2^1024\<close> on and underflows to 0 below \<open>2^-1075\<close>.
\<close>

lemma rte_of_int [simp]: "round_ties_even (of_int m) = m"
  by (simp add: round_ties_even_def)

lemma rte_le: "y \<le> of_int m \<Longrightarrow> round_ties_even y \<le> m"
proof -
  assume a: "y \<le> of_int m"
  show ?thesis
  proof (cases "y = of_int m")
    case True then show ?thesis by simp
  next
    case False
    with a have "y < of_int m" by simp
    then have "\<lfloor>y\<rfloor> < m" by (simp add: floor_less_iff)
    then have "\<lfloor>y\<rfloor> + 1 \<le> m" by simp
    then show ?thesis by (auto simp: round_ties_even_def Let_def)
  qed
qed

lemma rte_ge: "of_int m \<le> y \<Longrightarrow> m \<le> round_ties_even y"
proof -
  assume "of_int m \<le> y"
  then have "m \<le> \<lfloor>y\<rfloor>" by (simp add: le_floor_iff)
  then show ?thesis by (auto simp: round_ties_even_def Let_def)
qed

lemma rte_err: "\<bar>of_int (round_ties_even y) - y\<bar> \<le> 1 / 2"
proof -
  have "of_int \<lfloor>y\<rfloor> \<le> y" "y < of_int \<lfloor>y\<rfloor> + 1" by linarith+
  then show ?thesis by (auto simp: round_ties_even_def Let_def)
qed

lemma powr2_int: "(2::real) powr real_of_int k = 2 powi k"
  by (simp add: powr_real_of_int')

lemma floor_log2_eq:
  assumes "2 powi e \<le> x" "x < 2 powi (e + 1)"
  shows "\<lfloor>log 2 x\<rfloor> = e"
proof -
  have pos: "0 < x" using assms(1) zero_less_power_int [of "2::real" e] by linarith
  have "2 powr real_of_int e \<le> x" using assms(1) by (simp only: powr2_int)
  moreover have "x < 2 powr real_of_int (e + 1)" using assms(2) by (simp only: powr2_int)
  ultimately show ?thesis using floor_log_eq_powr_iff [of x 2 e] pos by simp
qed

lemma floor_log2_bounds:
  assumes "0 < x"
  shows "2 powi \<lfloor>log 2 x\<rfloor> \<le> x \<and> x < 2 powi (\<lfloor>log 2 x\<rfloor> + 1)"
proof -
  have "2 powr real_of_int \<lfloor>log 2 x\<rfloor> \<le> x \<and> x < 2 powr (real_of_int \<lfloor>log 2 x\<rfloor> + 1)"
    using floor_log_eq_powr_iff [of x 2 "\<lfloor>log 2 x\<rfloor>"] assms by simp
  then have "2 powr real_of_int \<lfloor>log 2 x\<rfloor> \<le> x \<and> x < 2 powr real_of_int (\<lfloor>log 2 x\<rfloor> + 1)"
    by simp
  then show ?thesis by (simp only: powr2_int)
qed

lemma pow2_less_imp: "(2::real) powi a < 2 powi b \<Longrightarrow> a < b"
  using power_int_increasing [of b a "2::real"] by (cases "a < b") simp_all

lemma pow2_le_imp: "(2::real) powi a \<le> 2 powi b \<Longrightarrow> a \<le> b"
  using power_int_strict_increasing [of b a "2::real"] by (cases "a \<le> b") simp_all


lemma pow2_split: "(2::real) powi (e - 52) * 2 ^ 52 = 2 powi e"
proof -
  have "(2::real) powi (e - 52 + 52) = 2 powi (e - 52) * 2 powi 52"
    by (rule power_int_add) simp
  then show ?thesis by simp
qed

lemma abs_scale:
  fixes r u x :: real
  assumes "0 < u"
  shows "\<bar>r * u - x\<bar> = \<bar>r - x / u\<bar> * u"
proof -
  have "r * u - x = (r - x / u) * u" using assms by (simp add: field_simps)
  then show ?thesis using assms by (simp add: abs_mult)
qed

lemma f64_ulp_pos: "0 < f64_ulp x"
  by (simp add: f64_ulp_def)

lemma f64_ulp_le:
  assumes "x \<noteq> 0" and "\<bar>x\<bar> < 2 powi (b + 1)" and "- 1022 \<le> b"
  shows "f64_ulp x \<le> 2 powi (b - 52)"
proof -
  have ax: "0 < \<bar>x\<bar>" using assms(1) by simp
  have "2 powi \<lfloor>log 2 \<bar>x\<bar>\<rfloor> \<le> \<bar>x\<bar>" using floor_log2_bounds [OF ax] by simp
  with assms(2) have "(2::real) powi \<lfloor>log 2 \<bar>x\<bar>\<rfloor> < 2 powi (b + 1)" by linarith
  then have "\<lfloor>log 2 \<bar>x\<bar>\<rfloor> < b + 1" by (rule pow2_less_imp)
  then have "max \<lfloor>log 2 \<bar>x\<bar>\<rfloor> (- 1022) - 52 \<le> b - 52" using assms(3) by simp
  then show ?thesis unfolding f64_ulp_def by (intro power_int_increasing) simp_all
qed

lemma f64_ulp_normal:
  assumes "2 powi (- 1022) \<le> \<bar>x\<bar>"
  shows "f64_ulp x * 2 ^ 52 \<le> \<bar>x\<bar>"
proof -
  have ax: "0 < \<bar>x\<bar>" using assms zero_less_power_int [of "2::real" "- 1022"] by linarith
  let ?e = "\<lfloor>log 2 \<bar>x\<bar>\<rfloor>"
  have b: "2 powi ?e \<le> \<bar>x\<bar>" "\<bar>x\<bar> < 2 powi (?e + 1)" using floor_log2_bounds [OF ax] by simp_all
  from assms b(2) have "(2::real) powi (- 1022) < 2 powi (?e + 1)" by linarith
  then have "- 1022 < ?e + 1" by (rule pow2_less_imp)
  then have "max ?e (- 1022) = ?e" by simp
  then have "f64_ulp x * 2 ^ 52 = 2 powi (?e - 52) * 2 ^ 52" by (simp add: f64_ulp_def)
  also have "\<dots> = 2 powi ?e" by (rule pow2_split)
  finally show ?thesis using b(1) by simp
qed

lemma f64_round_finite:
  assumes "x \<noteq> 0" and "\<bar>x\<bar> \<le> 2 ^ 1023"
  shows "f64_round x = Num (of_int (round_ties_even (x / f64_ulp x)) * f64_ulp x)"
proof -
  let ?u = "f64_ulp x"
  let ?v = "of_int (round_ties_even (x / ?u)) * ?u"
  have upos: "0 < ?u" by (rule f64_ulp_pos)
  have "\<bar>x\<bar> < 2 powi (1023 + 1)" using assms(2) by simp
  from f64_ulp_le [OF assms(1) this] have u: "?u \<le> 2 ^ 971" by simp
  have "\<bar>?v - x\<bar> = \<bar>of_int (round_ties_even (x / ?u)) - x / ?u\<bar> * ?u"
    using upos by (rule abs_scale)
  also have "\<dots> \<le> 1 / 2 * ?u"
    using rte_err [of "x / ?u"] upos by (intro mult_right_mono) simp_all
  finally have "\<bar>?v - x\<bar> \<le> ?u / 2" by simp
  then have "\<bar>?v\<bar> \<le> \<bar>x\<bar> + ?u / 2" by linarith
  with assms(2) u have "\<bar>?v\<bar> < 2 ^ 1024" by simp
  then show ?thesis using assms(1) by (simp add: f64_round_def Let_def)
qed

lemma f64_round_err:
  assumes "\<bar>x\<bar> \<le> 2 ^ 1023"
  shows "\<exists>v. f64_round x = Num v \<and> \<bar>v - x\<bar> \<le> f64_ulp x / 2"
proof (cases "x = 0")
  case True
  then show ?thesis using f64_ulp_pos [of x] by (simp add: f64_round_def)
next
  case False
  let ?u = "f64_ulp x"
  let ?v = "of_int (round_ties_even (x / ?u)) * ?u"
  have upos: "0 < ?u" by (rule f64_ulp_pos)
  have "\<bar>?v - x\<bar> = \<bar>of_int (round_ties_even (x / ?u)) - x / ?u\<bar> * ?u"
    using upos by (rule abs_scale)
  also have "\<dots> \<le> 1 / 2 * ?u"
    using rte_err [of "x / ?u"] upos by (intro mult_right_mono) simp_all
  finally have "\<bar>?v - x\<bar> \<le> ?u / 2" by simp
  with f64_round_finite [OF False assms] show ?thesis by simp
qed

lemma f64_round_rel:
  assumes "2 powi (- 1022) \<le> \<bar>x\<bar>" and "\<bar>x\<bar> \<le> 2 ^ 1023"
  shows "\<exists>v. f64_round x = Num v \<and> \<bar>v - x\<bar> \<le> \<bar>x\<bar> / 2 ^ 53"
proof -
  from f64_round_err [OF assms(2)] obtain v where
    v: "f64_round x = Num v" "\<bar>v - x\<bar> \<le> f64_ulp x / 2" by blast
  have "f64_ulp x / 2 \<le> \<bar>x\<bar> / 2 ^ 53" using f64_ulp_normal [OF assms(1)] by simp
  with v show ?thesis by (intro exI [of _ v]) simp
qed

lemma f64_round_overflow:
  assumes "2 ^ 1024 \<le> x"
  shows "f64_round x = Infinity"
proof -
  have xpos: "0 < x" using assms zero_less_power [of "2::real" 1024] by linarith
  then have ax: "0 < \<bar>x\<bar>" by simp
  let ?e = "\<lfloor>log 2 \<bar>x\<bar>\<rfloor>"
  have b: "2 powi ?e \<le> \<bar>x\<bar>" "\<bar>x\<bar> < 2 powi (?e + 1)" using floor_log2_bounds [OF ax] by simp_all
  have "(2::real) powi 1024 \<le> x" using assms by simp
  with b(2) xpos have "(2::real) powi 1024 < 2 powi (?e + 1)" by simp
  then have e: "1024 < ?e + 1" by (rule pow2_less_imp)
  then have me: "max ?e (- 1022) = ?e" by simp
  let ?u = "f64_ulp x"
  have u: "?u = 2 powi (?e - 52)" by (simp add: f64_ulp_def me)
  have upos: "0 < ?u" by (rule f64_ulp_pos)
  have ue: "?u * of_int (2 ^ 52) = 2 powi ?e" unfolding u using pow2_split [of ?e] by simp
  have "of_int (2 ^ 52) \<le> x / ?u"
    using b(1) xpos upos ue by (simp add: pos_le_divide_eq mult.commute)
  then have "2 ^ 52 \<le> round_ties_even (x / ?u)" by (rule rte_ge)
  then have "of_int (2 ^ 52) * ?u \<le> of_int (round_ties_even (x / ?u)) * ?u"
    using upos by (intro mult_right_mono) simp_all
  moreover have "(2::real) powi 1024 \<le> 2 powi ?e" using e by (intro power_int_increasing) simp_all
  ultimately have "2 ^ 1024 \<le> of_int (round_ties_even (x / ?u)) * ?u"
    using ue by (simp add: mult.commute)
  then have "2 ^ 1024 \<le> \<bar>of_int (round_ties_even (x / ?u)) * ?u\<bar>" by linarith
  then show ?thesis using xpos by (simp add: f64_round_def Let_def)
qed

lemma f64_round_exact:
  assumes x: "x = of_int m * 2 powi k" and m: "\<bar>m\<bar> < 2 ^ 53" and k: "- 1074 \<le> k"
    and fin: "\<bar>x\<bar> < 2 ^ 1024"
  shows "f64_round x = Num x"
proof (cases "x = 0")
  case True
  then show ?thesis by (simp add: f64_round_def)
next
  case False
  define e where "e = max \<lfloor>log 2 \<bar>x\<bar>\<rfloor> (- 1022)"
  define u :: real where "u = 2 powi (e - 52)"
  have uu: "f64_ulp x = u" by (simp add: f64_ulp_def u_def e_def)
  have upos: "0 < u" by (simp add: u_def)
  have ax: "0 < \<bar>x\<bar>" using False by simp
  have "\<bar>x\<bar> < 2 powi (k + 53)"
  proof -
    have "\<bar>x\<bar> = \<bar>real_of_int m\<bar> * 2 powi k" by (simp add: x abs_mult)
    also have "\<dots> < 2 ^ 53 * 2 powi k"
    proof -
      have "\<bar>real_of_int m\<bar> < 2 ^ 53" using m by (metis of_int_abs of_int_less_numeral_power_cancel_iff)
      then show ?thesis by (simp add: mult_strict_right_mono)
    qed
    also have "\<dots> = 2 powi (k + 53)" by (simp add: power_int_add)
    finally show ?thesis .
  qed
  moreover have "2 powi \<lfloor>log 2 \<bar>x\<bar>\<rfloor> \<le> \<bar>x\<bar>" using floor_log2_bounds [OF ax] by simp
  ultimately have "(2::real) powi \<lfloor>log 2 \<bar>x\<bar>\<rfloor> < 2 powi (k + 53)" by linarith
  then have "\<lfloor>log 2 \<bar>x\<bar>\<rfloor> < k + 53" by (rule pow2_less_imp)
  then have ek: "e - 52 \<le> k" using k by (simp add: e_def)
  define j where "j = nat (k - (e - 52))"
  have "2 powi k = 2 powi (e - 52) * (2::real) powi (k - (e - 52))"
    by (simp flip: power_int_add)
  also have "(2::real) powi (k - (e - 52)) = 2 ^ j" using ek by (simp add: j_def power_int_def)
  finally have "x / u = of_int (m * 2 ^ j)" using upos by (simp add: x u_def)
  then have "round_ties_even (x / u) = m * 2 ^ j" by (metis rte_of_int)
  then have v: "of_int (round_ties_even (x / u)) * u = x"
    using \<open>x / u = of_int (m * 2 ^ j)\<close> upos by (metis nonzero_eq_divide_eq less_irrefl)
  show ?thesis using False fin v
    by (simp add: f64_round_def Let_def uu)
qed

lemma f64_ulp_exp:
  assumes "x \<noteq> 0" and "\<bar>x\<bar> < 2 powi (b + 1)" and "- 1022 \<le> b"
  shows "\<exists>j. j \<le> b - 52 \<and> f64_ulp x = 2 powi j"
proof -
  have ax: "0 < \<bar>x\<bar>" using assms(1) by simp
  have "2 powi \<lfloor>log 2 \<bar>x\<bar>\<rfloor> \<le> \<bar>x\<bar>" using floor_log2_bounds [OF ax] by simp
  with assms(2) have "(2::real) powi \<lfloor>log 2 \<bar>x\<bar>\<rfloor> < 2 powi (b + 1)" by linarith
  then have "\<lfloor>log 2 \<bar>x\<bar>\<rfloor> < b + 1" by (rule pow2_less_imp)
  then have "max \<lfloor>log 2 \<bar>x\<bar>\<rfloor> (- 1022) - 52 \<le> b - 52" using assms(3) by simp
  then show ?thesis unfolding f64_ulp_def by blast
qed

lemma dyadic_multiple_of_ulp:
  assumes c: "c = of_int n / 2 ^ k" and k: "k \<le> 1074" and x: "x \<noteq> 0"
    and small: "\<bar>x\<bar> * 2 ^ k < 2 ^ 53"
  shows "\<exists>m. c = of_int m * f64_ulp x"
proof -
  have "\<bar>x\<bar> < 2 ^ 53 / 2 ^ k" using small by (simp add: pos_less_divide_eq)
  also have "(2::real) ^ 53 / 2 ^ k = 2 powi (52 - int k + 1)"
    by (simp add: power_int_diff)
  finally have "\<bar>x\<bar> < 2 powi (52 - int k + 1)" .
  from f64_ulp_exp [OF x this] k obtain j where j: "j \<le> - int k" "f64_ulp x = 2 powi j"
    by auto
  define d where "d = nat (- int k - j)"
  have "(2::real) powi (- int k) = 2 powi (j + int d)" using j(1) by (simp add: d_def)
  also have "\<dots> = 2 powi j * 2 powi (int d)" by (rule power_int_add) simp
  finally have "(2::real) powi (- int k) = 2 powi j * 2 ^ d" by simp
  moreover have "c = of_int n * 2 powi (- int k)"
    by (simp add: c power_int_minus field_simps)
  ultimately have "c = of_int (n * 2 ^ d) * f64_ulp x" by (simp add: j(2))
  then show ?thesis by blast
qed

lemma f64_round_le:
  assumes c: "c = of_int n / 2 ^ k" and k: "k \<le> 1074"
    and small: "\<bar>x\<bar> * 2 ^ k < 2 ^ 53" and le: "x \<le> c"
  shows "\<exists>v. f64_round x = Num v \<and> v \<le> c"
proof (cases "x = 0")
  case True
  with le show ?thesis by (simp add: f64_round_def)
next
  case False
  let ?u = "f64_ulp x"
  have upos: "0 < ?u" by (rule f64_ulp_pos)
  from dyadic_multiple_of_ulp [OF c k False small] obtain m where m: "c = of_int m * ?u" by blast
  have "\<bar>x\<bar> * 1 \<le> \<bar>x\<bar> * 2 ^ k" by (intro mult_left_mono) simp_all
  with small have fin: "\<bar>x\<bar> \<le> 2 ^ 1023" by simp
  have "x / ?u \<le> of_int m" using le upos by (simp add: m pos_divide_le_eq)
  then have "round_ties_even (x / ?u) \<le> m" by (rule rte_le)
  then have "of_int (round_ties_even (x / ?u)) * ?u \<le> of_int m * ?u"
    using upos by (intro mult_right_mono) simp_all
  with f64_round_finite [OF False fin] m show ?thesis by simp
qed

lemma f64_round_ge:
  assumes c: "c = of_int n / 2 ^ k" and k: "k \<le> 1074"
    and small: "\<bar>x\<bar> * 2 ^ k < 2 ^ 53" and ge: "c \<le> x"
  shows "\<exists>v. f64_round x = Num v \<and> c \<le> v"
proof (cases "x = 0")
  case True
  with ge show ?thesis by (simp add: f64_round_def)
next
  case False
  let ?u = "f64_ulp x"
  have upos: "0 < ?u" by (rule f64_ulp_pos)
  from dyadic_multiple_of_ulp [OF c k False small] obtain m where m: "c = of_int m * ?u" by blast
  have "\<bar>x\<bar> * 1 \<le> \<bar>x\<bar> * 2 ^ k" by (intro mult_left_mono) simp_all
  with small have fin: "\<bar>x\<bar> \<le> 2 ^ 1023" by simp
  have "of_int m \<le> x / ?u" using ge upos by (simp add: m pos_le_divide_eq)
  then have "m \<le> round_ties_even (x / ?u)" by (rule rte_ge)
  then have "of_int m * ?u \<le> of_int (round_ties_even (x / ?u)) * ?u"
    using upos by (intro mult_right_mono) simp_all
  with f64_round_finite [OF False fin] m show ?thesis by simp
qed

lemma f64_round_between:
  assumes "lo = of_int n / 2 ^ k" and "hi = of_int n' / 2 ^ k" and "k \<le> 1074"
    and "\<bar>x\<bar> * 2 ^ k < 2 ^ 53" and "lo \<le> x" and "x \<le> hi"
  shows "\<exists>v. f64_round x = Num v \<and> lo \<le> v \<and> v \<le> hi"
  using f64_round_le [OF assms(2) assms(3) assms(4) assms(6)]
    f64_round_ge [OF assms(1) assms(3) assms(4) assms(5)] by auto

lemma f64_round_eval:
  assumes "2 powi e \<le> \<bar>x\<bar>" and "\<bar>x\<bar> < 2 powi (e + 1)" and "- 1022 \<le> e" and "e \<le> 1022"
  shows "f64_round x = Num (of_int (round_ties_even (x / 2 powi (e - 52))) * 2 powi (e - 52))"
proof -
  have pos: "0 < \<bar>x\<bar>" using assms(1) zero_less_power_int [of "2::real" e] by linarith
  then have nz: "x \<noteq> 0" by simp
  have "\<lfloor>log 2 \<bar>x\<bar>\<rfloor> = e" using assms(1,2) by (rule floor_log2_eq)
  then have u: "f64_ulp x = 2 powi (e - 52)" using assms(3) by (simp add: f64_ulp_def)
  have "(2::real) powi (e + 1) \<le> 2 powi 1023" using assms(4) by (intro power_int_increasing) simp_all
  with assms(2) have "\<bar>x\<bar> \<le> 2 ^ 1023" by simp
  from f64_round_finite [OF nz this] show ?thesis by (simp add: u)
qed


lemma f64_round_at:
  assumes "2 powi e \<le> \<bar>x\<bar>" and "\<bar>x\<bar> < 2 powi (e + 1)" and "- 1022 \<le> e" and "e \<le> 52"
    and "x * 2 ^ nat (52 - e) = y" and "round_ties_even y = m"
  shows "f64_round x = Num (of_int m / 2 ^ nat (52 - e))"
proof -
  have u: "(2::real) powi (e - 52) = 1 / 2 ^ nat (52 - e)"
    using assms(4) by (simp add: power_int_def field_simps)
  have "e \<le> 1022" using assms(4) by simp
  from f64_round_eval [OF assms(1,2,3) this] assms(5,6) show ?thesis by (simp add: u)
qed

lemma rte_small: "\<bar>y\<bar> < 1 / 2 \<Longrightarrow> round_ties_even y = 0"
proof -
  assume small: "\<bar>y\<bar> < 1 / 2"
  show ?thesis
  proof (cases "0 \<le> y")
    case True
    with small have "\<lfloor>y\<rfloor> = 0" by linarith
    with small True show ?thesis by (simp add: round_ties_even_def Let_def)
  next
    case False
    with small have "\<lfloor>y\<rfloor> = - 1" by linarith
    with small False show ?thesis by (simp add: round_ties_even_def Let_def)
  qed
qed

lemma f64_round_underflow:
  assumes "x \<noteq> 0" and "\<bar>x\<bar> < 2 powi (- 1075)"
  shows "f64_round x = Num 0"
proof -
  have ax: "0 < \<bar>x\<bar>" using assms(1) by simp
  have "2 powi \<lfloor>log 2 \<bar>x\<bar>\<rfloor> \<le> \<bar>x\<bar>" using floor_log2_bounds [OF ax] by simp
  with assms(2) have "(2::real) powi \<lfloor>log 2 \<bar>x\<bar>\<rfloor> < 2 powi (- 1075)" by linarith
  then have "\<lfloor>log 2 \<bar>x\<bar>\<rfloor> < - 1075" by (rule pow2_less_imp)
  then have u: "f64_ulp x = 2 powi (- 1074)" by (simp add: f64_ulp_def max_def)
  have upos: "0 < f64_ulp x" by (rule f64_ulp_pos)
  have "(2::real) powi (- 1075) * 2 = 2 powi (- 1075 + 1)"
    using power_int_add [of "2::real" "- 1075" 1] by simp
  then have half: "(2::real) powi (- 1075) = f64_ulp x / 2" by (simp add: u)
  have "\<bar>x / f64_ulp x\<bar> = \<bar>x\<bar> / f64_ulp x" using upos by simp
  also have "\<dots> < 1 / 2"
  proof -
    have "\<bar>x\<bar> < f64_ulp x / 2" using assms(2) unfolding half .
    then show ?thesis using upos by (simp add: pos_divide_less_eq)
  qed
  finally have small: "\<bar>x / f64_ulp x\<bar> < 1 / 2" .
  from small have "round_ties_even (x / f64_ulp x) = 0" by (rule rte_small)
  then show ?thesis using assms(1) by (simp add: f64_round_def Let_def)
qed

lemma f64_round_factor:
  assumes "2 powi (- 1022) \<le> \<bar>y\<bar>" and "\<bar>y\<bar> \<le> 2 ^ 1023"
  shows "\<exists>\<delta>. f64_round y = Num (y * (1 + \<delta>)) \<and> \<bar>\<delta>\<bar> \<le> 1 / 2 ^ 53"
proof -
  have ypos: "0 < \<bar>y\<bar>" using assms(1) zero_less_power_int [of "2::real" "- 1022"] by linarith
  then have nz: "y \<noteq> 0" by simp
  from f64_round_rel [OF assms] obtain v where v: "f64_round y = Num v" "\<bar>v - y\<bar> \<le> \<bar>y\<bar> / 2 ^ 53"
    by blast
  define \<delta> where "\<delta> = (v - y) / y"
  have "y * (1 + \<delta>) = v" using nz by (simp add: \<delta>_def field_simps)
  moreover have "\<bar>\<delta>\<bar> = \<bar>v - y\<bar> / \<bar>y\<bar>" by (simp add: \<delta>_def)
  then have "\<bar>\<delta>\<bar> \<le> 1 / 2 ^ 53" using v(2) ypos by (simp add: pos_divide_le_eq mult.commute)
  ultimately show ?thesis using v(1) by auto
qed

lemma rate_bounds_cases:
  "(case USD_EXCHANGE_RATES c of Num r \<Rightarrow> 1 / 2 ^ 12 \<le> r \<and> r \<le> 127 / 100 | _ \<Rightarrow> False)"
  by (cases c) simp_all

lemma rate_bounds: "\<exists>r. USD_EXCHANGE_RATES c = Num r \<and> 1 / 2 ^ 12 \<le> r \<and> r \<le> 127 / 100"
  using rate_bounds_cases [of c] by (cases "USD_EXCHANGE_RATES c") simp_all

lemma rate_f64_bounds:
  "\<exists>r. USD_EXCHANGE_RATES_f64 c = Num r \<and> 1 / 2 ^ 13 \<le> r \<and> r \<le> 2"
proof -
  from rate_bounds [of c] obtain \<rho> where
    \<rho>: "USD_EXCHANGE_RATES c = Num \<rho>" "1 / 2 ^ 12 \<le> \<rho>" "\<rho> \<le> 127 / 100" by blast
  have "\<exists>v. f64_round \<rho> = Num v \<and> of_int 1 / 2 ^ 13 \<le> v \<and> v \<le> of_int (2 ^ 14) / 2 ^ 13"
    using \<rho>(2,3) by (intro f64_round_between [of _ 1 13 _ "2 ^ 14"]) simp_all
  then show ?thesis by (simp add: USD_EXCHANGE_RATES_f64_def \<rho>(1))
qed


section \<open>Conversion through the USD pivot\<close>

lemma convertCurrency_pivot:
  "convertCurrency x a b =
     (if a = b then x else js_div (js_mul x (USD_EXCHANGE_RATES a)) (USD_EXCHANGE_RATES b))"
  using rate_positive [of a] rate_positive [of b]
  by (cases x)
    (auto simp: convertCurrency_def convertToUSD_def convertFromUSD_def Let_def truthy_def
      inf_of_sign_def)

text \<open>Over exact arithmetic a round trip returns the amount it started from.\<close>

lemma convertCurrency_round_trip_exact:
  "convertCurrency (convertCurrency x A B) B A = x"
proof (cases "A = B")
  case True
  then show ?thesis by (simp add: convertCurrency_def)
next
  case False
  obtain ra where ra: "USD_EXCHANGE_RATES A = Num ra" "0 < ra"
    using rate_positive by blast
  obtain rb where rb: "USD_EXCHANGE_RATES B = Num rb" "0 < rb"
    using rate_positive by blast
  from False have "B \<noteq> A" by simp
  with False ra rb show ?thesis
    by (simp add: convertCurrency_pivot js_mul_div_cancel)
qed

text \<open>
  Over binary64 each of the at most four products and quotients of a round trip is
  rounded. While the amounts stay in the normal range each rounding moves the value by at
  most the fraction \<open>2^-53\<close> of it, and the rates cancel.
\<close>

lemma scaled_bounds:
  fixes t f L U :: real
  assumes t: "L \<le> \<bar>t\<bar>" "\<bar>t\<bar> \<le> U" and L: "0 < L"
    and f: "1 / 2 ^ 14 \<le> f" "f \<le> 2 ^ 14"
  shows "L / 2 ^ 14 \<le> \<bar>t * f\<bar> \<and> \<bar>t * f\<bar> \<le> U * 2 ^ 14"
proof -
  have "(0::real) < 1 / 2 ^ 14" by simp
  with f(1) have fpos: "0 < f" by linarith
  have a: "\<bar>t * f\<bar> = \<bar>t\<bar> * f" using fpos by (simp add: abs_mult)
  have "L * (1 / 2 ^ 14) \<le> \<bar>t\<bar> * f" using t(1) f(1) L by (intro mult_mono) simp_all
  moreover have "\<bar>t\<bar> * f \<le> U * 2 ^ 14" using t(2) f(2) fpos by (intro mult_mono) simp_all
  ultimately show ?thesis by (simp add: a)
qed

lemma convertToUSD_f64_step:
  assumes t: "L \<le> \<bar>t\<bar>" "\<bar>t\<bar> \<le> U" and L: "2 powi (- 1022) * 2 ^ 14 \<le> L"
    and U: "U * 2 ^ 14 \<le> 2 ^ 1023"
    and r: "USD_EXCHANGE_RATES_f64 c = Num r" "1 / 2 ^ 13 \<le> r" "r \<le> 2"
  shows "\<exists>\<delta> t'. convertToUSD_f64 (Num t) c = Num t' \<and> t' = t * r * (1 + \<delta>) \<and>
      \<bar>\<delta>\<bar> \<le> 1 / 2 ^ 53 \<and> L / 2 ^ 14 \<le> \<bar>t'\<bar> \<and> \<bar>t'\<bar> \<le> U * 2 ^ 14"
proof -
  have "(0::real) < 2 powi (- 1022) * 2 ^ 14"
    by (intro mult_pos_pos zero_less_power_int zero_less_power) simp_all
  with L have Lpos: "0 < L" by linarith
  show ?thesis
  proof (cases "c = USD")
    case True
    then have r1: "r = 1" using r(1)
      using f64_round_exact [of 1 1 0] by (simp add: USD_EXCHANGE_RATES_f64_def)
    have "L / 2 ^ 14 \<le> \<bar>t * 1\<bar> \<and> \<bar>t * 1\<bar> \<le> U * 2 ^ 14"
      using t Lpos by (intro scaled_bounds) simp_all
    then show ?thesis using True r1
      by (intro exI [of _ 0] exI [of _ t]) (simp add: convertToUSD_f64_def)
  next
    case False
    have "(0::real) < 1 / 2 ^ 13" by simp
  with r(2) have rpos: "0 < r" by linarith
    have y: "L / 2 ^ 14 \<le> \<bar>t * r\<bar> \<and> \<bar>t * r\<bar> \<le> U * 2 ^ 14"
      using t Lpos r(2,3) by (intro scaled_bounds) (simp_all add: field_simps)
    have "2 powi (- 1022) \<le> L / 2 ^ 14" using L by (simp add: pos_le_divide_eq)
    with y U have yr: "2 powi (- 1022) \<le> \<bar>t * r\<bar>" "\<bar>t * r\<bar> \<le> 2 ^ 1023" by linarith+
    from f64_round_factor [OF yr] obtain \<delta> where
      d: "f64_round (t * r) = Num (t * r * (1 + \<delta>))" "\<bar>\<delta>\<bar> \<le> 1 / 2 ^ 53" by blast
    have f: "1 / 2 ^ 14 \<le> r * (1 + \<delta>)" "r * (1 + \<delta>) \<le> 2 ^ 14"
    proof -
      have d1: "1 / 2 \<le> 1 + \<delta>" "1 + \<delta> \<le> 2" using d(2) by (simp_all add: abs_le_iff)
      have "1 / 2 ^ 13 * (1 / 2) \<le> r * (1 + \<delta>)" using r(2) d1(1) by (intro mult_mono) simp_all
      then show "1 / 2 ^ 14 \<le> r * (1 + \<delta>)" by simp
      have "r * (1 + \<delta>) \<le> 2 * 2" using r(3) d1 rpos by (intro mult_mono) simp_all
      then show "r * (1 + \<delta>) \<le> 2 ^ 14" by simp
    qed
    have b: "L / 2 ^ 14 \<le> \<bar>t * (r * (1 + \<delta>))\<bar> \<and> \<bar>t * (r * (1 + \<delta>))\<bar> \<le> U * 2 ^ 14"
      using t Lpos f by (intro scaled_bounds)
    have "convertToUSD_f64 (Num t) c = Num (t * r * (1 + \<delta>))"
      using False r(1) rpos d(1) by (simp add: convertToUSD_f64_def truthy_def f64_mul_def)
    with d(2) b show ?thesis
      by (intro exI [of _ \<delta>] exI [of _ "t * r * (1 + \<delta>)"]) (simp add: mult.assoc)
  qed
qed


lemma convertFromUSD_f64_step:
  assumes t: "L \<le> \<bar>t\<bar>" "\<bar>t\<bar> \<le> U" and L: "2 powi (- 1022) * 2 ^ 14 \<le> L"
    and U: "U * 2 ^ 14 \<le> 2 ^ 1023"
    and r: "USD_EXCHANGE_RATES_f64 c = Num r" "1 / 2 ^ 13 \<le> r" "r \<le> 2"
  shows "\<exists>\<delta> t'. convertFromUSD_f64 (Num t) c = Num t' \<and> t' = t / r * (1 + \<delta>) \<and>
      \<bar>\<delta>\<bar> \<le> 1 / 2 ^ 53 \<and> L / 2 ^ 14 \<le> \<bar>t'\<bar> \<and> \<bar>t'\<bar> \<le> U * 2 ^ 14"
proof -
  have "(0::real) < 2 powi (- 1022) * 2 ^ 14"
    by (intro mult_pos_pos zero_less_power_int zero_less_power) simp_all
  with L have Lpos: "0 < L" by linarith
  have "(0::real) < 1 / 2 ^ 13" by simp
  with r(2) have rpos: "0 < r" by linarith
  have inv: "1 / 2 \<le> 1 / r" "1 / r \<le> 2 ^ 13"
    using r(2,3) rpos by (simp_all add: field_simps)
  show ?thesis
  proof (cases "c = USD")
    case True
    then have r1: "r = 1" using r(1)
      using f64_round_exact [of 1 1 0] by (simp add: USD_EXCHANGE_RATES_f64_def)
    have "L / 2 ^ 14 \<le> \<bar>t * 1\<bar> \<and> \<bar>t * 1\<bar> \<le> U * 2 ^ 14"
      using t Lpos by (intro scaled_bounds) simp_all
    then show ?thesis using True r1
      by (intro exI [of _ 0] exI [of _ t]) (simp add: convertFromUSD_f64_def)
  next
    case False
    have y: "L / 2 ^ 14 \<le> \<bar>t * (1 / r)\<bar> \<and> \<bar>t * (1 / r)\<bar> \<le> U * 2 ^ 14"
      using t Lpos inv by (intro scaled_bounds) simp_all
    have "2 powi (- 1022) \<le> L / 2 ^ 14" using L by (simp add: pos_le_divide_eq)
    moreover have eq: "t / r = t * (1 / r)" by simp
    ultimately have yr: "2 powi (- 1022) \<le> \<bar>t / r\<bar>" "\<bar>t / r\<bar> \<le> 2 ^ 1023"
      unfolding eq using y U by linarith+
    from f64_round_factor [OF yr] obtain \<delta> where
      d: "f64_round (t / r) = Num (t / r * (1 + \<delta>))" "\<bar>\<delta>\<bar> \<le> 1 / 2 ^ 53" by blast
    have f: "1 / 2 ^ 14 \<le> 1 / r * (1 + \<delta>)" "1 / r * (1 + \<delta>) \<le> 2 ^ 14"
    proof -
      define X where "X = 1 / r * (1 + \<delta>)"
      have d1: "1 / 2 \<le> 1 + \<delta>" "1 + \<delta> \<le> 2" using d(2) by (simp_all add: abs_le_iff)
      have ir: "0 \<le> 1 / r" using rpos by simp
      have "1 / 2 * (1 / 2) \<le> 1 / r * (1 + \<delta>)" using inv(1) d1(1) rpos by (intro mult_mono) simp_all
      then have lo: "1 / 4 \<le> X" by (simp add: X_def)
      have "1 / r * (1 + \<delta>) \<le> 2 ^ 13 * 2" using inv(2) d1 ir by (intro mult_mono) simp_all
      then have hi: "X \<le> 2 ^ 14" by (simp add: X_def)
      from lo show "1 / 2 ^ 14 \<le> 1 / r * (1 + \<delta>)" unfolding X_def [symmetric] by simp
      from hi show "1 / r * (1 + \<delta>) \<le> 2 ^ 14" unfolding X_def [symmetric] by simp
    qed
    have b: "L / 2 ^ 14 \<le> \<bar>t * (1 / r * (1 + \<delta>))\<bar> \<and> \<bar>t * (1 / r * (1 + \<delta>))\<bar> \<le> U * 2 ^ 14"
      using t Lpos f by (intro scaled_bounds)
    have "convertFromUSD_f64 (Num t) c = Num (t / r * (1 + \<delta>))"
      using False r(1) rpos d(1) by (simp add: convertFromUSD_f64_def truthy_def f64_div_def)
    with d(2) b show ?thesis
      by (intro exI [of _ \<delta>] exI [of _ "t / r * (1 + \<delta>)"]) simp
  qed
qed

lemma rel_err_step:
  fixes p \<delta> \<eta> \<epsilon> :: real
  assumes "\<bar>p - 1\<bar> \<le> \<eta>" and "\<bar>\<delta>\<bar> \<le> \<epsilon>"
  shows "\<bar>p * (1 + \<delta>) - 1\<bar> \<le> \<eta> + \<epsilon> + \<eta> * \<epsilon>"
proof -
  define q where "q = (p - 1) * \<delta>"
  have eq: "p * (1 + \<delta>) - 1 = (p - 1) + \<delta> + q" by (simp add: q_def algebra_simps)
  have "\<bar>q\<bar> = \<bar>p - 1\<bar> * \<bar>\<delta>\<bar>" by (simp add: q_def abs_mult)
  also have "\<dots> \<le> \<eta> * \<epsilon>" using assms by (intro mult_mono) simp_all
  finally have "\<bar>q\<bar> \<le> \<eta> * \<epsilon>" .
  moreover have "\<bar>(p - 1) + \<delta> + q\<bar> \<le> \<bar>p - 1\<bar> + \<bar>\<delta>\<bar> + \<bar>q\<bar>" by linarith
  ultimately show ?thesis unfolding eq using assms by linarith
qed

lemma four_roundings:
  fixes a b c d :: real
  assumes "\<bar>a\<bar> \<le> 1 / 2 ^ 53" "\<bar>b\<bar> \<le> 1 / 2 ^ 53" "\<bar>c\<bar> \<le> 1 / 2 ^ 53" "\<bar>d\<bar> \<le> 1 / 2 ^ 53"
  shows "\<bar>(1 + a) * (1 + b) * (1 + c) * (1 + d) - 1\<bar> \<le> 1 / 2 ^ 50"
proof -
  have e1: "\<bar>(1 + a) - 1\<bar> \<le> 1 / 2 ^ 53" using assms(1) by simp
  from rel_err_step [OF e1 assms(2)]
  have e2: "\<bar>(1 + a) * (1 + b) - 1\<bar> \<le> 3 / 2 ^ 53" by simp
  from rel_err_step [OF e2 assms(3)]
  have e3: "\<bar>(1 + a) * (1 + b) * (1 + c) - 1\<bar> \<le> 5 / 2 ^ 53" by simp
  from rel_err_step [OF e3 assms(4)]
  show ?thesis by simp
qed

lemma convertCurrency_f64_round_trip:
  assumes lo: "2 powi (- 966) \<le> \<bar>a\<bar>" and hi: "\<bar>a\<bar> \<le> 2 ^ 967"
  shows "\<exists>b. convertCurrency_f64 (convertCurrency_f64 (Num a) A B) B A = Num b \<and>
     \<bar>b - a\<bar> \<le> \<bar>a\<bar> / 2 ^ 50"
proof (cases "A = B")
  case True
  then show ?thesis by (simp add: convertCurrency_f64_def)
next
  case False
  define m :: real where "m = 2 powi (- 1022)"
  define M :: real where "M = 2 ^ 1023"
  define n where "n = \<bar>a\<bar>"
  have m0: "0 < m" by (simp add: m_def)
  have "(2::real) powi (- 1022) * 2 ^ 56 = 2 powi (- 966)"
    by (simp add: power_int_minus field_simps)
  with lo have L: "m * 2 ^ 56 \<le> n" by (simp add: m_def n_def)
  have "(2::real) ^ 967 * 2 ^ 56 = 2 ^ 1023" by simp
  with hi have U: "n * 2 ^ 56 \<le> M" by (simp add: M_def n_def)
  have "0 < m * 2 ^ 56" using m0 by (intro mult_pos_pos zero_less_power) simp_all
  with L have n0: "0 < n" by linarith
  have c0: "m * 2 ^ 14 \<le> n" "n * 2 ^ 14 \<le> M"
    and c1: "m * 2 ^ 14 \<le> n / 2 ^ 14" "n * 2 ^ 14 * 2 ^ 14 \<le> M"
    and c2: "m * 2 ^ 14 \<le> n / 2 ^ 14 / 2 ^ 14" "n * 2 ^ 14 * 2 ^ 14 * 2 ^ 14 \<le> M"
    and c3: "m * 2 ^ 14 \<le> n / 2 ^ 14 / 2 ^ 14 / 2 ^ 14" "n * 2 ^ 14 * 2 ^ 14 * 2 ^ 14 * 2 ^ 14 \<le> M"
    using L U m0 n0 by simp_all
  obtain rA where rA: "USD_EXCHANGE_RATES_f64 A = Num rA" "1 / 2 ^ 13 \<le> rA" "rA \<le> 2"
    using rate_f64_bounds by blast
  obtain rB where rB: "USD_EXCHANGE_RATES_f64 B = Num rB" "1 / 2 ^ 13 \<le> rB" "rB \<le> 2"
    using rate_f64_bounds by blast
  have "(0::real) < 1 / 2 ^ 13" by simp
  with rA(2) rB(2) have rpos: "0 < rA" "0 < rB" by linarith+
  have a0: "n \<le> \<bar>a\<bar>" "\<bar>a\<bar> \<le> n" by (simp_all add: n_def)
  from convertToUSD_f64_step [OF a0 c0 [unfolded m_def M_def] rA]
  obtain d1 t1 where s1: "convertToUSD_f64 (Num a) A = Num t1" "t1 = a * rA * (1 + d1)"
    "\<bar>d1\<bar> \<le> 1 / 2 ^ 53" "n / 2 ^ 14 \<le> \<bar>t1\<bar>" "\<bar>t1\<bar> \<le> n * 2 ^ 14" by blast
  from convertFromUSD_f64_step [OF s1(4,5) c1 [unfolded m_def M_def] rB]
  obtain d2 t2 where s2: "convertFromUSD_f64 (Num t1) B = Num t2" "t2 = t1 / rB * (1 + d2)"
    "\<bar>d2\<bar> \<le> 1 / 2 ^ 53" "n / 2 ^ 14 / 2 ^ 14 \<le> \<bar>t2\<bar>" "\<bar>t2\<bar> \<le> n * 2 ^ 14 * 2 ^ 14" by blast
  from convertToUSD_f64_step [OF s2(4,5) c2 [unfolded m_def M_def] rB]
  obtain d3 t3 where s3: "convertToUSD_f64 (Num t2) B = Num t3" "t3 = t2 * rB * (1 + d3)"
    "\<bar>d3\<bar> \<le> 1 / 2 ^ 53" "n / 2 ^ 14 / 2 ^ 14 / 2 ^ 14 \<le> \<bar>t3\<bar>"
    "\<bar>t3\<bar> \<le> n * 2 ^ 14 * 2 ^ 14 * 2 ^ 14" by blast
  from convertFromUSD_f64_step [OF s3(4,5) c3 [unfolded m_def M_def] rA]
  obtain d4 t4 where s4: "convertFromUSD_f64 (Num t3) A = Num t4" "t4 = t3 / rA * (1 + d4)"
    "\<bar>d4\<bar> \<le> 1 / 2 ^ 53" by blast
  define P where "P = (1 + d1) * (1 + d2) * (1 + d3) * (1 + d4)"
  have t4: "t4 = a * P"
    using rpos by (simp add: s4(2) s3(2) s2(2) s1(2) P_def)
  have "\<bar>P - 1\<bar> \<le> 1 / 2 ^ 50"
    unfolding P_def using s1(3) s2(3) s3(3) s4(3) by (rule four_roundings)
  then have "\<bar>a\<bar> * \<bar>P - 1\<bar> \<le> \<bar>a\<bar> * (1 / 2 ^ 50)" by (intro mult_left_mono) simp_all
  moreover have "t4 - a = a * (P - 1)" by (simp add: t4 algebra_simps)
  then have "\<bar>t4 - a\<bar> = \<bar>a\<bar> * \<bar>P - 1\<bar>" by (simp add: abs_mult)
  ultimately have e: "\<bar>t4 - a\<bar> \<le> \<bar>a\<bar> / 2 ^ 50" by simp
  have "convertCurrency_f64 (Num a) A B = Num t2"
    using False s1(1) s2(1) by (simp add: convertCurrency_f64_def)
  moreover have "convertCurrency_f64 (Num t2) B A = Num t4"
    using False s3(1) s4(1) by (simp add: convertCurrency_f64_def)
  ultimately show ?thesis using e by simp
qed



text \<open>
  Claim C5, as stated for every amount, at the binary64 amount \<open>2^1023\<close> (about 8.99e307):
  converted from USD to COP it is divided by the rate 0.00025 and overflows to Infinity,
  and the way back returns Infinity, which is within no tolerance of the amount.
\<close>

theorem convertCurrency_f64_overflow_counterexample:
  "convertCurrency_f64 (convertCurrency_f64 (Num (2 ^ 1023)) USD COP) COP USD = Infinity"
proof -
  have "\<exists>v. f64_round (1 / 4000) = Num v \<and> 1 / 2 ^ 13 \<le> v \<and> v \<le> 1 / 2"
    using f64_round_between [of "1 / 2 ^ 13" 1 13 "1 / 2" "2 ^ 12" "1 / 4000"] by simp
  then obtain r where r: "f64_round (1 / 4000) = Num r" "1 / 2 ^ 13 \<le> r" "r \<le> 1 / 2" by blast
  have "(0::real) < 1 / 2 ^ 13" by simp
  with r(2) have rpos: "0 < r" by linarith
  have rate: "USD_EXCHANGE_RATES_f64 COP = Num r"
    using r(1) by (simp add: USD_EXCHANGE_RATES_f64_def)
  have "2 ^ 1023 * 2 \<le> 2 ^ 1023 * (1 / r)"
    using r(3) rpos by (intro mult_left_mono) (simp_all add: field_simps)
  then have "2 ^ 1024 \<le> 2 ^ 1023 / r" by simp
  then have over: "f64_round (2 ^ 1023 / r) = Infinity" by (rule f64_round_overflow)
  have inner: "convertCurrency_f64 (Num (2 ^ 1023)) USD COP = Infinity"
    using rate rpos over
    by (simp add: convertCurrency_f64_def convertToUSD_f64_def convertFromUSD_f64_def
        truthy_def f64_div_def del: power_numeral)
  have outer: "convertCurrency_f64 Infinity COP USD = Infinity"
    using rate rpos
    by (simp add: convertCurrency_f64_def convertToUSD_f64_def convertFromUSD_f64_def
        truthy_def f64_mul_def inf_of_sign_def)
  show ?thesis unfolding inner outer ..
qed


text \<open>
  At the other end the smallest positive binary64 number, \<open>2^-1074\<close>, converted from ARS to
  USD underflows to 0, and the way back returns 0.
\<close>

lemma convertCurrency_f64_underflow:
  "convertCurrency_f64 (convertCurrency_f64 (Num (2 powi (- 1074))) ARS USD) USD ARS = Num 0"
proof -
  have "\<exists>v. f64_round (11 / 10000) = Num v \<and> 1 / 2 ^ 13 \<le> v \<and> v \<le> 1 / 4"
    using f64_round_between [of "1 / 2 ^ 13" 1 13 "1 / 4" "2 ^ 11" "11 / 10000"] by simp
  then obtain r where r: "f64_round (11 / 10000) = Num r" "1 / 2 ^ 13 \<le> r" "r \<le> 1 / 4" by blast
  have "(0::real) < 1 / 2 ^ 13" by simp
  with r(2) have rpos: "0 < r" by linarith
  have rate: "USD_EXCHANGE_RATES_f64 ARS = Num r"
    using r(1) by (simp add: USD_EXCHANGE_RATES_f64_def)
  define t :: real where "t = 2 powi (- 1074)"
  have tpos: "0 < t" by (simp add: t_def)
  have "t * r \<le> t * (1 / 4)" using r(3) tpos by (intro mult_left_mono) simp_all
  moreover have "(2::real) powi (- 1075) * 2 = 2 powi (- 1075 + 1)"
    using power_int_add [of "2::real" "- 1075" 1] by simp
  then have "t = 2 powi (- 1075) * 2" by (simp add: t_def)
  ultimately have lt: "t * r < 2 powi (- 1075)"
    using zero_less_power_int [of "2::real" "- 1075"] by linarith
  have pos: "0 < t * r" using tpos rpos by simp
  then have nz: "t * r \<noteq> 0" by linarith
  have "\<bar>t * r\<bar> = t * r" using pos by linarith
  with lt have "\<bar>t * r\<bar> < 2 powi (- 1075)" by (simp only:)
  with nz have "f64_round (t * r) = Num 0" by (rule f64_round_underflow)
  then have inner: "convertCurrency_f64 (Num t) ARS USD = Num 0"
    using rate rpos
    by (simp add: convertCurrency_f64_def convertToUSD_f64_def convertFromUSD_f64_def
        truthy_def f64_mul_def)
  have outer: "convertCurrency_f64 (Num 0) USD ARS = Num 0"
    using rate rpos
    by (simp add: convertCurrency_f64_def convertToUSD_f64_def convertFromUSD_f64_def
        truthy_def f64_div_def f64_round_def)
  show ?thesis unfolding t_def [symmetric] inner outer ..
qed


lemma convertCurrency_f64_zero:
  "convertCurrency_f64 (convertCurrency_f64 (Num 0) A B) B A = Num 0"
proof -
  have step: "convertCurrency_f64 (Num 0) C D = Num 0" for C D
  proof -
    obtain rC where rC: "USD_EXCHANGE_RATES_f64 C = Num rC" "1 / 2 ^ 13 \<le> rC"
      using rate_f64_bounds by blast
    obtain rD where rD: "USD_EXCHANGE_RATES_f64 D = Num rD" "1 / 2 ^ 13 \<le> rD"
      using rate_f64_bounds by blast
    have "(0::real) < 1 / 2 ^ 13" by simp
    with rC(2) rD(2) have "0 < rC" "0 < rD" by linarith+
    then show ?thesis using rC(1) rD(1)
      by (simp add: convertCurrency_f64_def convertToUSD_f64_def convertFromUSD_f64_def
          truthy_def f64_mul_def f64_div_def f64_round_def Let_def)
  qed
  show ?thesis by (simp add: step)
qed

text \<open>
  Claim C5, amended. For all currencies \<open>A\<close> and \<open>B\<close>, converting an amount from \<open>A\<close> to \<open>B\<close>
  and back gives the amount itself over exact arithmetic, for every amount; and over
  binary64 it gives 0 for the amount 0 and, for every finite amount \<open>a\<close> with
  \<open>2^-966 \<le> |a| \<le> 2^967\<close>, a number \<open>b\<close> with \<open>|b - a| \<le> |a| / 2^50\<close>.
\<close>

theorem convertCurrency_round_trip_tolerance:
  "convertCurrency (convertCurrency x A B) B A = x \<and>
   convertCurrency_f64 (convertCurrency_f64 (Num 0) A B) B A = Num 0 \<and>
   (2 powi (- 966) \<le> \<bar>a\<bar> \<and> \<bar>a\<bar> \<le> 2 ^ 967 \<longrightarrow>
      (\<exists>b. convertCurrency_f64 (convertCurrency_f64 (Num a) A B) B A = Num b \<and>
           \<bar>b - a\<bar> \<le> \<bar>a\<bar> / 2 ^ 50))"
  using convertCurrency_round_trip_exact [of x A B] convertCurrency_f64_round_trip [of a A B]
    convertCurrency_f64_zero [of A B]
  by blast

text \<open>The amended C5 at 1000 ARS, to EUR and back.\<close>

theorem convertCurrency_round_trip_tolerance_witness:
  "2 powi (- 966) \<le> \<bar>1000 :: real\<bar> \<and> \<bar>1000 :: real\<bar> \<le> 2 ^ 967 \<and>
   convertCurrency (convertCurrency (Num 1000) ARS EUR) EUR ARS = Num 1000 \<and>
   (\<exists>b. convertCurrency_f64 (convertCurrency_f64 (Num 1000) ARS EUR) EUR ARS = Num b \<and>
        \<bar>b - 1000\<bar> \<le> 1000 / 2 ^ 50)"
proof -
  have h: "2 powi (- 966) \<le> \<bar>1000 :: real\<bar> \<and> \<bar>1000 :: real\<bar> \<le> 2 ^ 967"
    by (simp add: power_int_minus field_simps)
  from convertCurrency_round_trip_tolerance [of "Num 1000" ARS EUR 1000] h
  show ?thesis by simp
qed

text \<open>
  Claim C6. For every currency \<open>C\<close> and every amount \<open>x\<close>, \<open>convertCurrency(x, C, C)\<close> is \<open>x\<close>
  itself; and for \<open>from \<noteq> to\<close>, \<open>convertCurrency(amount, from, to)\<close> is
  \<open>convertFromUSD(convertToUSD(amount, from), to)\<close>, the USD pivot.
\<close>

theorem convertCurrency_identity_and_pivot:
  "convertCurrency x C C = x \<and>
   (from \<noteq> to \<longrightarrow>
      convertCurrency amount from to = convertFromUSD (convertToUSD amount from) to)"
  by (simp add: convertCurrency_def)

text \<open>
  The statement of C6 at 1000 ARS: to ARS it stays 1000; to EUR it is the pivot value,
  1000 times 0.0011 divided by 1.10, which is 1.
\<close>

theorem convertCurrency_identity_and_pivot_witness:
  "ARS \<noteq> EUR \<and> convertCurrency (Num 1000) ARS ARS = Num 1000 \<and>
   convertCurrency (Num 1000) ARS EUR = convertFromUSD (convertToUSD (Num 1000) ARS) EUR \<and>
   convertFromUSD (convertToUSD (Num 1000) ARS) EUR = Num 1"
proof -
  have ne: "ARS \<noteq> EUR" by simp
  have v: "convertFromUSD (convertToUSD (Num 1000) ARS) EUR = Num 1"
    by (simp add: convertToUSD_def convertFromUSD_def truthy_def)
  from convertCurrency_identity_and_pivot [of "Num 1000" ARS ARS EUR "Num 1000"] ne v
  show ?thesis by simp
qed

section \<open>Exchange rates between two currencies\<close>


lemma getExchangeRate_ARS_EUR: "getExchangeRate ARS EUR = Num 0.001"
  by (simp add: getExchangeRate_def js_or_def truthy_def Let_def)

text \<open>
  Claim C10. For every pair of currencies \<open>A\<close> and \<open>B\<close>, the product of
  \<open>getExchangeRate(A, B)\<close> and \<open>getExchangeRate(B, A)\<close> is 1 over exact arithmetic, and
  \<open>getExchangeRate(A, B)\<close> is a strictly positive number.
\<close>

theorem getExchangeRate_reciprocal:
  "js_mul (getExchangeRate A B) (getExchangeRate B A) = Num 1 \<and>
   (\<exists>r. getExchangeRate A B = Num r \<and> 0 < r) \<and>
   js_gt (getExchangeRate A B) (Num 0)"
proof -
  obtain ra where ra: "USD_EXCHANGE_RATES A = Num ra" "0 < ra"
    using rate_positive by blast
  obtain rb where rb: "USD_EXCHANGE_RATES B = Num rb" "0 < rb"
    using rate_positive by blast
  from ra rb show ?thesis
    by (auto simp add: getExchangeRate_def js_or_def truthy_def Let_def js_gt_def)
qed

section \<open>Simulated quotes\<close>

lemma generateUSDTQuote_steps:
  assumes "0 \<le> r" and "r < 1"
  shows "\<exists>a b c d. f64_round (r - 1 / 2) = Num a \<and> - (1 / 2) \<le> a \<and> a \<le> 1 / 2 \<and>
     f64_round (a * 40) = Num b \<and> - 20 \<le> b \<and> b \<le> 20 \<and>
     f64_round (1200 + b) = Num c \<and> 1180 \<le> c \<and> c \<le> 1220 \<and>
     f64_round (c * 100) = Num d \<and> 118000 \<le> d \<and> d \<le> 122000"
proof -
  have "\<exists>v. f64_round (r - 1 / 2) = Num v \<and> of_int (- 1) / 2 ^ 1 \<le> v \<and> v \<le> of_int 1 / 2 ^ 1"
    using assms by (intro f64_round_between [of _ "- 1" 1 _ 1]) simp_all
  then obtain a where a: "f64_round (r - 1 / 2) = Num a" "- (1 / 2) \<le> a" "a \<le> 1 / 2" by auto
  have "\<exists>v. f64_round (a * 40) = Num v \<and> of_int (- 20) / 2 ^ 0 \<le> v \<and> v \<le> of_int 20 / 2 ^ 0"
    using a(2,3) by (intro f64_round_between [of _ "- 20" 0 _ 20]) simp_all
  then obtain b where b: "f64_round (a * 40) = Num b" "- 20 \<le> b" "b \<le> 20" by auto
  have "\<exists>v. f64_round (1200 + b) = Num v \<and> of_int 1180 / 2 ^ 0 \<le> v \<and> v \<le> of_int 1220 / 2 ^ 0"
    using b(2,3) by (intro f64_round_between [of _ 1180 0 _ 1220]) simp_all
  then obtain c where c: "f64_round (1200 + b) = Num c" "1180 \<le> c" "c \<le> 1220" by auto
  have "\<exists>v. f64_round (c * 100) = Num v \<and> of_int 118000 / 2 ^ 0 \<le> v \<and> v \<le> of_int 122000 / 2 ^ 0"
    using c(2,3) by (intro f64_round_between [of _ 118000 0 _ 122000]) simp_all
  then obtain d where d: "f64_round (c * 100) = Num d" "118000 \<le> d" "d \<le> 122000" by auto
  from a b c d show ?thesis by blast
qed

text \<open>
  Claim C3, as stated, at the draw \<open>r = 9/4096\<close>. Every step up to \<open>Math.round\<close> is exact
  and gives 118009; the price is the binary64 number nearest to 1180.09, which is not
  1180.09, and 100 times it is not an integer, neither exactly nor as the binary64
  product (118008.99999999999).
\<close>

theorem generateUSDTQuote_not_two_decimals_counterexample:
  "price (generateUSDTQuote (9 / 4096) 0) = Num (5190090707288719 / 4398046511104) \<and>
   5190090707288719 / 4398046511104 * (100::real) \<notin> \<int> \<and>
   f64_mul (price (generateUSDTQuote (9 / 4096) 0)) (Num 100) = Num (8109516730138623 / 68719476736) \<and>
   (8109516730138623 / 68719476736 :: real) \<notin> \<int>"
proof -
  have a: "f64_round (- (2039 / 4096)) = Num (- (2039 / 4096))"
    using f64_round_exact [of "- (2039 / 4096)" "- 2039" "- 12"] by (simp add: power_int_minus)
  have b: "f64_round (- (10195 / 512)) = Num (- (10195 / 512))"
    using f64_round_exact [of "- (10195 / 512)" "- 10195" "- 9"] by (simp add: power_int_minus)
  have c: "f64_round (604205 / 512) = Num (604205 / 512)"
    using f64_round_exact [of "604205 / 512" 604205 "- 9"] by (simp add: power_int_minus)
  have d: "f64_round (15105125 / 128) = Num (15105125 / 128)"
    using f64_round_exact [of "15105125 / 128" 15105125 "- 7"] by (simp add: power_int_minus)
  have r1: "round_ties_even (129752267682217984 / 25) = 5190090707288719"
    by (simp add: round_ties_even_def Let_def)
  have p: "f64_round (118009 / 100) = Num (5190090707288719 / 4398046511104)"
    using f64_round_eval [of 10 "118009 / 100"] by (simp add: power_int_minus r1)
  have price: "price (generateUSDTQuote (9 / 4096) 0) = Num (5190090707288719 / 4398046511104)"
    by (simp add: generateUSDTQuote_def Let_def f64_mul_def f64_sub_def f64_add_def f64_div_def js_sub_def
        USDT_PRICE_RANGE_base_def a b c d p)
  have r2: "round_ties_even (129752267682217975 / 16) = 8109516730138623"
    by (simp add: round_ties_even_def Let_def)
  have q: "f64_round (129752267682217975 / 1099511627776) = Num (8109516730138623 / 68719476736)"
    using f64_round_eval [of 16 "129752267682217975 / 1099511627776"]
    by (simp add: power_int_minus r2)
  have prod: "f64_mul (price (generateUSDTQuote (9 / 4096) 0)) (Num 100) =
      Num (8109516730138623 / 68719476736)"
    by (simp add: price f64_mul_def q)
  have n1: "5190090707288719 / 4398046511104 * (100::real) \<notin> \<int>"
    by (simp add: frac_eq_0_iff [symmetric] frac_def)
  have n2: "(8109516730138623 / 68719476736 :: real) \<notin> \<int>"
    by (simp add: frac_eq_0_iff [symmetric] frac_def)
  from price prod n1 n2 show ?thesis by blast
qed

text \<open>
  At the draw \<open>r = 562949953421/2^52\<close> the rounded sum reaches 118000.5, so the code rounds
  to 118001 and returns the binary64 number nearest to 1180.01, where the formula over
  exact arithmetic rounds to 118000.
\<close>

lemma generateUSDTQuote_differs_from_exact:
  "price (generateUSDTQuote (562949953421 / 4503599627370496) now) = Num (5189738863567831 / 4398046511104) \<and>
   f64_round (118001 / 100) = Num (5189738863567831 / 4398046511104) \<and>
   \<lfloor>(1200 + (562949953421 / 4503599627370496 - 1 / 2) * 40) * 100 + 1 / (2::real)\<rfloor> = 118000"
proof -
  have a: "f64_round (- (2251236863731827 / 4503599627370496)) =
      Num (- (2251236863731827 / 4503599627370496))"
    using f64_round_exact [of "- (2251236863731827 / 4503599627370496)" "- 2251236863731827" "- 52"]
    by (simp add: power_int_minus)
  have b: "f64_round (- (11256184318659135 / 562949953421312)) =
      Num (- (175877879979049 / 8796093022208))"
    using f64_round_at [of 4 "- (11256184318659135 / 562949953421312)"
        "- (11256184318659135 / 2)" "- 5628092159329568"]
    by (simp add: round_ties_even_def Let_def)
  have c: "f64_round (10379433746670551 / 8796093022208) = Num (1297429218333819 / 1099511627776)"
    using f64_round_at [of 10 "10379433746670551 / 8796093022208"
        "10379433746670551 / 2" 5189716873335276]
    by (simp add: round_ties_even_def Let_def)
  have d: "f64_round (32435730458345475 / 274877906944) = Num (8108932614586369 / 68719476736)"
    using f64_round_at [of 16 "32435730458345475 / 274877906944"
        "32435730458345475 / 4" 8108932614586369]
    by (simp add: round_ties_even_def Let_def)
  have p: "f64_round (118001 / 100) = Num (5189738863567831 / 4398046511104)"
    using f64_round_at [of 10 "118001 / 100" "129743471589195776 / 25" 5189738863567831]
    by (simp add: round_ties_even_def Let_def)
  have price: "price (generateUSDTQuote (562949953421 / 4503599627370496) now) =
      Num (5189738863567831 / 4398046511104)"
    by (simp add: generateUSDTQuote_def Let_def f64_mul_def f64_sub_def f64_add_def f64_div_def js_sub_def
        USDT_PRICE_RANGE_base_def a b c d p)
  have ex: "\<lfloor>(1200 + (562949953421 / 4503599627370496 - 1 / 2) * 40) * 100 + 1 / (2::real)\<rfloor> = 118000"
    by simp
  from price p ex show ?thesis by blast
qed

text \<open>
  Claim C3, amended. For every value \<open>r\<close> of the random source in \<open>[0, 1)\<close>, the price of the
  quote that \<open>generateUSDTQuote\<close> returns is \<open>round((1200 + (r - 0.5) \<times> 40) \<times> 100) / 100\<close>
  computed in binary64: a number in the closed interval from 1180 to 1220 that is the
  binary64 number nearest to \<open>n / 100\<close> for an integer \<open>n\<close> from 118000 to 122000, and so
  within \<open>2^-43\<close> of a number with two decimals.
\<close>

theorem generateUSDTQuote_price_range:
  assumes "0 \<le> r" and "r < 1"
  shows "price (generateUSDTQuote r now) =
       f64_div (Math_round (f64_mul (f64_add (Num 1200)
         (f64_mul (f64_sub (Num r) (Num 0.5)) (Num 40))) (Num 100))) (Num 100) \<and>
     (\<exists>p n. price (generateUSDTQuote r now) = Num p \<and> 1180 \<le> p \<and> p \<le> 1220 \<and>
        js_ge (Num p) USDT_PRICE_RANGE_min \<and> js_ge USDT_PRICE_RANGE_max (Num p) \<and>
        118000 \<le> n \<and> n \<le> 122000 \<and> f64_round (of_int n / 100) = Num p \<and>
        \<bar>p - of_int n / 100\<bar> \<le> 1 / 2 ^ 43)"
proof -
  from generateUSDTQuote_steps [OF assms] obtain a b c d where
    a: "f64_round (r - 1 / 2) = Num a" and
    b: "f64_round (a * 40) = Num b" and
    c: "f64_round (1200 + b) = Num c" and
    d: "f64_round (c * 100) = Num d" "118000 \<le> d" "d \<le> 122000"
    by blast
  define n where "n = \<lfloor>d + 1 / 2\<rfloor>"
  have n: "118000 \<le> n" "n \<le> 122000" using d(2,3) by (simp_all add: n_def le_floor_iff floor_le_iff)
  let ?q = "real_of_int n / 100"
  have q: "1180 \<le> ?q" "?q \<le> 1220" using n by simp_all
  have "\<exists>v. f64_round ?q = Num v \<and> of_int 1180 / 2 ^ 0 \<le> v \<and> v \<le> of_int 1220 / 2 ^ 0"
    using q by (intro f64_round_between [of _ 1180 0 _ 1220]) simp_all
  then obtain p where p: "f64_round ?q = Num p" "1180 \<le> p" "p \<le> 1220" by auto
  have "\<bar>?q\<bar> \<le> 2 ^ 1023" using q by simp
  from f64_round_err [OF this] p(1) have e: "\<bar>p - ?q\<bar> \<le> f64_ulp ?q / 2" by simp
  have "?q \<noteq> 0" "\<bar>?q\<bar> < 2 powi (10 + 1)" using q by simp_all
  from f64_ulp_le [OF this] have "f64_ulp ?q \<le> 1 / 2 ^ 42" by (simp add: power_int_minus field_simps)
  with e have err: "\<bar>p - ?q\<bar> \<le> 1 / 2 ^ 43" by simp
  have "price (generateUSDTQuote r now) = Num p"
    using a b c d(1) p(1)
    by (simp add: generateUSDTQuote_def Let_def f64_mul_def f64_sub_def f64_add_def f64_div_def js_sub_def
        USDT_PRICE_RANGE_base_def n_def)
  have rng: "js_ge (Num p) USDT_PRICE_RANGE_min \<and> js_ge USDT_PRICE_RANGE_max (Num p)"
    using p(2,3) by (simp add: USDT_PRICE_RANGE_min_def USDT_PRICE_RANGE_max_def not_less)
  have formula: "price (generateUSDTQuote r now) =
       f64_div (Math_round (f64_mul (f64_add (Num 1200)
         (f64_mul (f64_sub (Num r) (Num 0.5)) (Num 40))) (Num 100))) (Num 100)"
    by (simp add: generateUSDTQuote_def Let_def USDT_PRICE_RANGE_base_def)
  from \<open>price (generateUSDTQuote r now) = Num p\<close> p n err rng formula show ?thesis by blast
qed

text \<open>The amended C3 at the draw \<open>r = 1/4\<close>, where every step is exact and the price is 1190.\<close>

theorem generateUSDTQuote_price_range_witness:
  "(0::real) \<le> 1 / 4 \<and> (1 / 4 :: real) < 1 \<and>
   (\<exists>p n. price (generateUSDTQuote (1 / 4) 0) = Num p \<and> 1180 \<le> p \<and> p \<le> 1220 \<and>
      118000 \<le> n \<and> n \<le> 122000 \<and> f64_round (of_int n / 100) = Num p \<and>
      \<bar>p - of_int n / 100\<bar> \<le> 1 / 2 ^ 43)"
proof -
  have a: "(0::real) \<le> 1 / 4" and b: "(1 / 4 :: real) < 1" by simp_all
  from generateUSDTQuote_price_range [OF a b, of 0] a b show ?thesis by blast
qed


section \<open>Simulated rate tables\<close>






text \<open>
  The draws are used in the order of the keys: the first for USDT, the second for ARS, and
  so on to the tenth for GBP.
\<close>

lemma generateExchangeRates_draws:
  "rates (generateExchangeRates random now) USDT =
     js_mul (USD_EXCHANGE_RATES USDT)
       (js_add (Num 1) (js_mul (js_sub (Num (random 0)) (Num 0.5)) (Num 0.02))) \<and>
   rates (generateExchangeRates random now) ARS =
     js_mul (USD_EXCHANGE_RATES ARS)
       (js_add (Num 1) (js_mul (js_sub (Num (random 1)) (Num 0.5)) (Num 0.02))) \<and>
   rates (generateExchangeRates random now) GBP =
     js_mul (USD_EXCHANGE_RATES GBP)
       (js_add (Num 1) (js_mul (js_sub (Num (random 9)) (Num 0.5)) (Num 0.02)))"
  by (simp add: generateExchangeRates_def Object_keys_rates_def Let_def js_sub_def
      numeral_eq_Suc)

section \<open>Staleness of a cached value\<close>

lemma shouldUpdateQuotes_Some:
  "shouldUpdateQuotes (Some d) now = (\<exists>t. d = Instant t \<and> 3600000 \<le> now - t)"
  by (cases d) (auto simp add: shouldUpdateQuotes_def js_sub_def QUOTE_CACHE_DURATION_def)

text \<open>
  Claim C4. \<open>shouldUpdateQuotes(lastUpdate)\<close> is true if and only if \<open>lastUpdate\<close> is null or
  \<open>now - lastUpdate\<close> is at least one hour, 3,600,000 ms; so it is true of null, false of
  \<open>now\<close> itself and true of \<open>now\<close> minus 61 minutes. (Of an Invalid Date it is false: the
  difference is NaN, which is not at least an hour.)
\<close>

theorem shouldUpdateQuotes_iff:
  "shouldUpdateQuotes lastUpdate now =
     (lastUpdate = None \<or> (\<exists>t. lastUpdate = Some (Instant t) \<and> 3600000 \<le> now - t)) \<and>
   shouldUpdateQuotes None now \<and>
   \<not> shouldUpdateQuotes (Some (Instant now)) now \<and>
   shouldUpdateQuotes (Some (Instant (now - 61 * 60 * 1000))) now \<and>
   \<not> shouldUpdateQuotes (Some InvalidDate) now"
proof -
  have "shouldUpdateQuotes lastUpdate now =
     (lastUpdate = None \<or> (\<exists>t. lastUpdate = Some (Instant t) \<and> 3600000 \<le> now - t))"
    by (cases lastUpdate) (simp_all add: shouldUpdateQuotes_Some, simp add: shouldUpdateQuotes_def)
  moreover have "shouldUpdateQuotes None now"
    by (simp add: shouldUpdateQuotes_def)
  ultimately show ?thesis
    by (simp add: shouldUpdateQuotes_Some)
qed

section \<open>The current quote, from the cache or generated\<close>


lemma getCachedUSDTQuote_returns:
  "\<exists>r. getCachedUSDTQuote deserialize st now = Inr r"
  by (simp add: getCachedUSDTQuote_def split: sum.split)


lemma getCurrentUSDTQuote_hit:
  assumes "getItem st ''tufinanza_usdt_quote'' = Inr (Some cached)" and "cached \<noteq> []"
    and "deserialize cached = Inr quote"
    and "\<not> shouldUpdateQuotes (Some (USDTQuote.timestamp quote)) now"
  shows "getCurrentUSDTQuote deserialize serialize random now now' st = Inr (quote, st)"
  using assms
  by (simp add: getCurrentUSDTQuote_def getCachedUSDTQuote_def getCachedUSDTQuote_try_def)


text \<open>
  A cached quote whose timestamp is an Invalid Date is never Stale, whatever the clock
  says: the difference of the time values is NaN, and the test \<open>timeDiff >= 3600000\<close> is
  false. It is returned as it is.
\<close>

lemma getCurrentUSDTQuote_invalid_timestamp:
  assumes "getItem st ''tufinanza_usdt_quote'' = Inr (Some cached)" and "cached \<noteq> []"
    and "deserialize cached = Inr quote" and "USDTQuote.timestamp quote = InvalidDate"
  shows "getCurrentUSDTQuote deserialize serialize random now now' st = Inr (quote, st)"
  using assms by (simp add: getCurrentUSDTQuote_hit shouldUpdateQuotes_Some)



section \<open>Validating an amount\<close>

text \<open>
  Claim C7. \<open>validateAmount(amount)\<close> is invalid, with a reason, if and only if \<open>amount\<close> is
  NaN, negative, exactly zero or greater than 999,999,999, and valid, with no reason,
  otherwise: that is, valid exactly for the finite amounts \<open>a\<close> with \<open>0 < a \<le> 999999999\<close>.
  \<open>validateAmount(0)\<close> is invalid with the reason \<open>El monto debe ser mayor a cero\<close> (the
  amount must be greater than zero), \<open>validateAmount(-5)\<close> and \<open>validateAmount(1000000000)\<close>
  are invalid, and \<open>validateAmount(100)\<close> is valid.
\<close>

theorem validateAmount_iff:
  "(\<not> isValid (validateAmount amount)) =
     (amount = NaN \<or> js_lt amount (Num 0) \<or> amount = Num 0 \<or> js_gt amount (Num 999999999)) \<and>
   isValid (validateAmount amount) = (\<exists>a. amount = Num a \<and> 0 < a \<and> a \<le> 999999999) \<and>
   (error (validateAmount amount) = None) = isValid (validateAmount amount) \<and>
   validateAmount (Num 0) =
     \<lparr> isValid = False, error = Some (str ''El monto debe ser mayor a cero'') \<rparr> \<and>
   \<not> isValid (validateAmount (Num (- 5))) \<and>
   \<not> isValid (validateAmount (Num 1000000000)) \<and>
   isValid (validateAmount (Num 100))"
proof -
  have iff: "(\<not> isValid (validateAmount amount)) =
     (amount = NaN \<or> js_lt amount (Num 0) \<or> amount = Num 0 \<or> js_gt amount (Num 999999999))"
    by (simp add: validateAmount_def isNaN_def js_eq_def)
  have num: "isValid (validateAmount amount) = (\<exists>a. amount = Num a \<and> 0 < a \<and> a \<le> 999999999)"
    by (cases amount) (auto simp add: validateAmount_def isNaN_def js_eq_def js_gt_def)
  have err: "(error (validateAmount amount) = None) = isValid (validateAmount amount)"
    by (simp add: validateAmount_def)
  have zero: "validateAmount (Num 0) =
     \<lparr> isValid = False, error = Some (str ''El monto debe ser mayor a cero'') \<rparr>"
    by (simp add: validateAmount_def isNaN_def js_eq_def)
  have ex: "\<not> isValid (validateAmount (Num (- 5)))" "\<not> isValid (validateAmount (Num 1000000000))"
    "isValid (validateAmount (Num 100))"
    by (simp_all add: validateAmount_def isNaN_def js_eq_def js_gt_def)
  from iff num err zero ex show ?thesis by blast
qed

section \<open>Parsing a number\<close>

text \<open>
  \<open>lastIndexOf\<close> is -1 exactly when the character does not occur; otherwise it is the
  position of an occurrence with none after it.
\<close>

lemma lastIndexOf_from_absent:
  "c \<notin> set xs \<Longrightarrow> lastIndexOf_from xs c i found = found"
  by (induction xs arbitrary: i found) simp_all

lemma lastIndexOf_from_present:
  "c \<in> set xs \<Longrightarrow>
     \<exists>j < length xs. lastIndexOf_from xs c i found = i + int j \<and> xs ! j = c \<and>
        c \<notin> set (drop (Suc j) xs)"
proof (induction xs arbitrary: i found)
  case Nil
  then show ?case by simp
next
  case (Cons x xs)
  show ?case
  proof (cases "c \<in> set xs")
    case True
    from Cons.IH [OF True, of "i + 1" "if x = c then i else found"]
    obtain j where j: "j < length xs"
      "lastIndexOf_from xs c (i + 1) (if x = c then i else found) = i + 1 + int j"
      "xs ! j = c" "c \<notin> set (drop (Suc j) xs)"
      by blast
    then have "Suc j < length (x # xs) \<and>
        lastIndexOf_from (x # xs) c i found = i + int (Suc j) \<and> (x # xs) ! Suc j = c \<and>
        c \<notin> set (drop (Suc (Suc j)) (x # xs))"
      by simp
    then show ?thesis by blast
  next
    case False
    with Cons.prems have xc: "x = c" by simp
    with False have "0 < length (x # xs) \<and>
        lastIndexOf_from (x # xs) c i found = i + int 0 \<and> (x # xs) ! 0 = c \<and>
        c \<notin> set (drop (Suc 0) (x # xs))"
      by (simp add: lastIndexOf_from_absent)
    then show ?thesis by blast
  qed
qed

lemma lastIndexOf_absent: "(lastIndexOf s c = - 1) = (c \<notin> set s)"
proof (cases "c \<in> set s")
  case True
  from lastIndexOf_from_present [OF True, of 0 "- 1"] True show ?thesis
    by (auto simp: lastIndexOf_def)
next
  case False
  then show ?thesis by (simp add: lastIndexOf_def lastIndexOf_from_absent)
qed

lemma lastIndexOf_present:
  "c \<in> set s \<Longrightarrow>
     \<exists>j < length s. lastIndexOf s c = int j \<and> s ! j = c \<and> c \<notin> set (drop (Suc j) s)"
  using lastIndexOf_from_present [of c s 0 "- 1"] by (simp add: lastIndexOf_def)


text \<open>
  The three branches of \<open>parseNumber\<close>, on the input stripped of symbols and white space:
  a comma after the last period (or a comma and no period) makes the first comma the
  decimal point and removes every period; otherwise a last period with at most two
  characters after it stays, the periods before it removed; otherwise every period is
  removed. A result that is not a number becomes 0.
\<close>

lemma parseNumber_comma_decimal:
  assumes "cleaned = filter (\<lambda>c. \<not> isSymbolOrSpace c) input"
    and "lastIndexOf cleaned 46 < lastIndexOf cleaned 44"
  shows "parseNumber input =
     (let num = parseFloat (replace_first 44 46 (removeAll_char 46 cleaned))
      in if isNaN num then Num 0 else num)"
  using assms by (simp add: parseNumber_def Let_def)

lemma parseNumber_dot_decimal:
  assumes "cleaned = filter (\<lambda>c. \<not> isSymbolOrSpace c) input"
    and "lastIndexOf cleaned 44 \<le> lastIndexOf cleaned 46"
    and "lastIndexOf cleaned 46 = int j"
    and "length (drop (Suc j) cleaned) \<le> 2"
  shows "parseNumber input =
     (let num = parseFloat (removeAll_char 46 (take j cleaned) @ [46] @ drop (Suc j) cleaned)
      in if isNaN num then Num 0 else num)"
  using assms by (simp add: parseNumber_def Let_def nat_add_distrib)

lemma parseNumber_dot_thousands:
  assumes "cleaned = filter (\<lambda>c. \<not> isSymbolOrSpace c) input"
    and "lastIndexOf cleaned 44 \<le> lastIndexOf cleaned 46"
    and "lastIndexOf cleaned 46 = int j"
    and "2 < length (drop (Suc j) cleaned)"
  shows "parseNumber input =
     (let num = parseFloat (removeAll_char 46 cleaned)
      in if isNaN num then Num 0 else num)"
  using assms by (simp add: parseNumber_def Let_def nat_add_distrib)

lemma parseNumber_no_separator:
  assumes "cleaned = filter (\<lambda>c. \<not> isSymbolOrSpace c) input"
    and "46 \<notin> set cleaned" and "44 \<notin> set cleaned"
  shows "parseNumber input = (let num = parseFloat cleaned in if isNaN num then Num 0 else num)"
  using assms lastIndexOf_absent [of cleaned 46] lastIndexOf_absent [of cleaned 44]
  by (simp add: parseNumber_def Let_def)

lemma parseNumber_not_NaN: "parseNumber input \<noteq> NaN"
  by (simp add: parseNumber_def Let_def isNaN_def)

lemma strip_us: "filter (\<lambda>c. \<not> isSymbolOrSpace c) (str ''1,234.56'') = str ''1,234.56''"
  by (simp add: str_def isSymbolOrSpace_def isWhiteSpace_def)

lemma parseFloat_us: "parseFloat (str ''1,234.56'') = Num 1"
  by (simp add: parseFloat_def str_def isWhiteSpace_def isDigit_def digitsValue_def scale10_def
      exponentPart_def Let_def)

text \<open>
  Claim C1, at the input \<open>"1,234.56"\<close>. The last period follows the last comma and has two
  characters after it, so the period is kept as the decimal separator and the other
  periods are removed; the comma, a thousands separator here, is not removed, and
  \<open>parseFloat\<close> stops reading at it. The code returns 1, where the claim has 1234.56.
\<close>

theorem parseNumber_comma_thousands:
  "parseNumber (str ''1,234.56'') = Num 1 \<and> parseNumber (str ''1,234.56'') \<noteq> Num 1234.56"
proof -
  have dot: "lastIndexOf (str ''1,234.56'') 46 = 5"
    by (simp add: str_def lastIndexOf_def)
  have comma: "lastIndexOf (str ''1,234.56'') 44 = 1"
    by (simp add: str_def lastIndexOf_def)
  have after: "drop 6 (str ''1,234.56'') = str ''56''"
    by (simp add: str_def)
  have before: "removeAll_char 46 (take 5 (str ''1,234.56'')) = str ''1,234''"
    by (simp add: str_def removeAll_char_def)
  have join: "str ''1,234'' @ [46] @ str ''56'' = str ''1,234.56''"
    by (simp add: str_def)
  have len: "length (str ''56'') \<le> 2"
    by (simp add: str_def)
  have "parseNumber (str ''1,234.56'') = Num 1"
    unfolding parseNumber_def strip_us Let_def dot comma
    using after before join len by (simp add: parseFloat_us isNaN_def)
  then show ?thesis by simp
qed

lemma strip_eu: "filter (\<lambda>c. \<not> isSymbolOrSpace c) (str ''1.234,56'') = str ''1.234,56''"
  by (simp add: str_def isSymbolOrSpace_def isWhiteSpace_def)

lemma parseFloat_eu: "parseFloat (str ''1234.56'') = Num 1234.56"
  by (simp add: parseFloat_def str_def isWhiteSpace_def isDigit_def digitsValue_def scale10_def
      exponentPart_def Let_def)

text \<open>The two other examples of C1 are what the code computes.\<close>

lemma parseNumber_comma_decimal_example: "parseNumber (str ''1.234,56'') = Num 1234.56"
proof -
  have dot: "lastIndexOf (str ''1.234,56'') 46 = 1"
    by (simp add: str_def lastIndexOf_def)
  have comma: "lastIndexOf (str ''1.234,56'') 44 = 5"
    by (simp add: str_def lastIndexOf_def)
  have repl: "replace_first 44 46 (removeAll_char 46 (str ''1.234,56'')) = str ''1234.56''"
    by (simp add: str_def removeAll_char_def)
  show ?thesis
    unfolding parseNumber_def strip_eu Let_def dot comma
    using repl by (simp add: parseFloat_eu isNaN_def)
qed

lemma strip_th: "filter (\<lambda>c. \<not> isSymbolOrSpace c) (str ''1.234'') = str ''1.234''"
  by (simp add: str_def isSymbolOrSpace_def isWhiteSpace_def)

lemma parseFloat_th: "parseFloat (str ''1234'') = Num 1234"
  by (simp add: parseFloat_def str_def isWhiteSpace_def isDigit_def digitsValue_def scale10_def
      exponentPart_def Let_def)

lemma parseNumber_dot_thousands_example: "parseNumber (str ''1.234'') = Num 1234"
proof -
  have dot: "lastIndexOf (str ''1.234'') 46 = 1"
    by (simp add: str_def lastIndexOf_def)
  have comma: "lastIndexOf (str ''1.234'') 44 = - 1"
    by (simp add: str_def lastIndexOf_def)
  have after: "length (drop 2 (str ''1.234'')) = 3"
    by (simp add: str_def)
  have rm: "removeAll_char 46 (str ''1.234'') = str ''1234''"
    by (simp add: str_def removeAll_char_def)
  show ?thesis
    unfolding parseNumber_def strip_th Let_def dot comma
    using after rm by (simp add: parseFloat_th isNaN_def)
qed

end
